theory Spec2Isabelle
  imports Main "HOL-Library.Word"
begin

section \<open>Tokens and errors\<close>

text \<open>
  A token is a byte slice (\<^verbatim>\<open>type Token []byte\<close>); the code only ever compares its
  content with \<^verbatim>\<open>string(token)\<close>, so a token is modelled by its content.
\<close>

type_synonym Token = string

text \<open>
  The error values of the package. \<open>ErrNew\<close> stands for a value made by
  \<^verbatim>\<open>errors.New\<close> (the package's \<^verbatim>\<open>ErrUnexpected\<close>, the errors of user-defined
  Iteratees, a failure of the underlying reader). \<open>ErrExpect\<close> and \<open>ErrExpectQ\<close>
  are the string types of the iteratee file, \<open>TokenErr\<close> the struct of enum.go.
  \<open>ErrTrailingInput\<close>, \<open>ErrMistmatch\<close> and \<open>ErrUnexpectedEnd\<close> exist only in the
  earlier revision kept in stream.go.
\<close>

datatype error =
    ErrNew string
  | ErrExpect string
  | ErrExpectQ string
  | TokenErr string error
  | ErrTrailingInput string
  | ErrMistmatch string string
  | ErrUnexpectedEnd

definition ErrUnexpected :: error where
  "ErrUnexpected = ErrNew ''unexpected token''"

section \<open>Iteratees\<close>

text \<open>
  \<^verbatim>\<open>Iteratee\<close> is an interface with the methods \<^verbatim>\<open>Final\<close> and \<^verbatim>\<open>Next\<close>. The
  implementations of the package are the constructors below; \<open>userI\<close> is any other
  implementation, given by a state of type \<open>'u\<close> and by its two methods, which are
  passed as a record of functions. A nil Iteratee is \<open>None\<close> of an \<open>option\<close>, a nil
  error is \<open>None\<close>.

  The exported constructors are \<^verbatim>\<open>Match(s) = matchI(s)\<close>, \<^verbatim>\<open>SkipAny(s) = skipAnyI(s)\<close>,
  \<^verbatim>\<open>Seq(its...) = seqI(its)\<close>, \<^verbatim>\<open>Star(it) = starI{it}\<close>, \<^verbatim>\<open>EOF = eofI{}\<close> and
  \<^verbatim>\<open>Skip = skipI{}\<close>.
\<close>

datatype 'u Iteratee =
    eofI
  | skipI
  | matchI string
  | skipAnyI string
  | thenI "'u Iteratee" "'u Iteratee"
  | seqI "'u Iteratee list"
  | starI "'u Iteratee"
  | userI 'u

type_synonym 'u result = "'u Iteratee option \<times> bool \<times> error option"

record 'u user_methods =
  uFinal :: "'u \<Rightarrow> error option"
  uNext :: "'u \<Rightarrow> Token \<Rightarrow> 'u result"

fun Final :: "'u user_methods \<Rightarrow> 'u Iteratee \<Rightarrow> error option" where
  "Final ms eofI = None"
| "Final ms skipI = Some (ErrExpect ''a token'')"
| "Final ms (matchI s) = Some (ErrExpectQ s)"
| "Final ms (skipAnyI s) = None"
| "Final ms (thenI A B) =
     (case Final ms A of
        Some err \<Rightarrow> Some err
      | None \<Rightarrow> (case Final ms B of Some err \<Rightarrow> Some err | None \<Rightarrow> None))"
| "Final ms (seqI []) = None"
| "Final ms (seqI (i # its)) =
     (case Final ms i of Some err \<Rightarrow> Some err | None \<Rightarrow> Final ms (seqI its))"
| "Final ms (starI A) = None"
| "Final ms (userI u) = uFinal ms u"

fun Next :: "'u user_methods \<Rightarrow> 'u Iteratee \<Rightarrow> Token \<Rightarrow> 'u result" where
  "Next ms eofI token = (None, False, Some (ErrExpect ''<eof>''))"
| "Next ms skipI token = (None, True, None)"
| "Next ms (matchI s) token =
     (if token = s then (None, True, None) else (None, False, Some (ErrExpectQ s)))"
| "Next ms (skipAnyI s) token =
     (if token = s then (Some (skipAnyI s), True, None) else (None, False, None))"
| "Next ms (thenI A B) token =
     (case Next ms A token of
        (_, _, Some err) \<Rightarrow> (None, False, Some err)
      | (Some next, read, None) \<Rightarrow> (Some (thenI next B), read, None)
      | (None, read, None) \<Rightarrow> (Some B, read, None))"
| "Next ms (seqI []) token = (None, False, None)"
| "Next ms (seqI (i # its)) token =
     (case Next ms i token of
        (_, _, Some err) \<Rightarrow> (None, False, Some err)
      | (Some next, read, None) \<Rightarrow> (Some (thenI next (seqI its)), read, None)
      | (None, read, None) \<Rightarrow> (Some (seqI its), read, None))"
| "Next ms (starI A) token =
     (case Next ms A token of
        (_, _, Some err) \<Rightarrow> (None, False, None)
      | (Some next, read, None) \<Rightarrow> (Some (thenI next (starI A)), read, None)
      | (None, read, None) \<Rightarrow> (Some (starI A), read, None))"
| "Next ms (userI u) token = uNext ms u token"

subsection \<open>The earlier revision in stream.go\<close>



definition stream_Match_Final :: "string \<Rightarrow> error option" where
  "stream_Match_Final it = Some ErrUnexpectedEnd"

definition stream_Match_Next :: "string \<Rightarrow> Token \<Rightarrow> 'u result" where
  "stream_Match_Next it token =
     (if token = it then (None, True, None)
      else (None, False, Some (ErrMistmatch it token)))"

section \<open>The enumerator\<close>

text \<open>
  \<^verbatim>\<open>bufio.Scanner\<close> belongs to the standard library. Its behaviour as \<^verbatim>\<open>Step\<close> sees
  it: \<^verbatim>\<open>Scan\<close> moves to the next token and returns true, or returns false when no token
  is left; \<^verbatim>\<open>Bytes\<close> is the token of the last \<^verbatim>\<open>Scan\<close>; \<^verbatim>\<open>Err\<close>, asked after a
  \<^verbatim>\<open>Scan\<close> that returned false, is nil at the end of the input and the reader's error
  otherwise. The scanner is therefore the tokens still to come, the error it ends with,
  and the current token.
\<close>

record Scanner =
  toks :: "Token list"
  serr :: "error option"
  bytes :: Token

definition Scan :: "Scanner \<Rightarrow> Scanner \<times> bool" where
  "Scan s = (case toks s of
               [] \<Rightarrow> (s\<lparr>bytes := []\<rparr>, False)
             | t # ts \<Rightarrow> (s\<lparr>toks := ts, bytes := t\<rparr>, True))"

definition Err :: "Scanner \<Rightarrow> error option" where
  "Err s = serr s"

record ScanEnumerator =
  inS :: Scanner
  scan :: bool

definition WrapTokenError :: "Token \<Rightarrow> error option \<Rightarrow> error option" where
  "WrapTokenError token err =
     (case err of None \<Rightarrow> None | Some x \<Rightarrow> Some (TokenErr token x))"

definition NewScanEnumerator :: "Scanner \<Rightarrow> ScanEnumerator" where
  "NewScanEnumerator s = \<lparr>inS = s, scan = True\<rparr>"

text \<open>A scanner that has not been read yet, over the given tokens.\<close>

definition NewScanner :: "Token list \<Rightarrow> error option \<Rightarrow> Scanner" where
  "NewScanner ts failure = \<lparr>toks = ts, serr = failure, bytes = []\<rparr>"

text \<open>
  \<^verbatim>\<open>Step\<close> changes the enumerator it is called on; the model returns the new
  enumerator with the two results.
\<close>

definition Step ::
  "'u user_methods \<Rightarrow> ScanEnumerator \<Rightarrow> 'u Iteratee
     \<Rightarrow> ScanEnumerator \<times> 'u Iteratee option \<times> error option" where
  "Step ms e it =
     (if scan e \<and> \<not> snd (Scan (inS e)) then
        (let s = fst (Scan (inS e)) in
         (e\<lparr>inS := s\<rparr>, None,
          (case Err s of None \<Rightarrow> Final ms it | Some err \<Rightarrow> Some err)))
      else
        (let s = (if scan e then fst (Scan (inS e)) else inS e);
             token = bytes s
         in (case Next ms it token of
               (next, read, err) \<Rightarrow>
                 (e\<lparr>inS := s, scan := read\<rparr>, next, WrapTokenError token err))))"

text \<open>
  \<^verbatim>\<open>Run\<close> is a loop with no bound on its iterations. The first argument is the number
  of calls of \<^verbatim>\<open>Step\<close> it may make: \<open>None\<close> says the loop is still running after that
  many calls, \<open>Some (e, err)\<close> that it returned \<open>err\<close> and left the enumerator as \<open>e\<close>.
\<close>

fun Run ::
  "nat \<Rightarrow> 'u user_methods \<Rightarrow> ScanEnumerator \<Rightarrow> 'u Iteratee
     \<Rightarrow> (ScanEnumerator \<times> error option) option" where
  "Run 0 ms e it = None"
| "Run (Suc n) ms e it =
     (case Step ms e it of
        (e', _, Some err) \<Rightarrow> Some (e', Some err)
      | (e', None, None) \<Rightarrow> Some (e', None)
      | (e', Some it', None) \<Rightarrow> Run n ms e' it')"

text \<open>
  No user-defined Iteratee: the methods of the one value of type \<open>unit\<close>, never
  reached from the Iteratees of the package.
\<close>

definition no_user :: "unit user_methods" where
  "no_user = \<lparr>uFinal = (\<lambda>_. None), uNext = (\<lambda>_ _. (None, False, None))\<rparr>"

section \<open>The Iteratees of the package's test\<close>

text \<open>
  The test file defines an Iteratee of its own, \<^verbatim>\<open>type Balance int\<close>, an integer that
  counts the open parentheses, and runs it and the grammar \<^verbatim>\<open>abcN\<close> over inputs split
  into single bytes. Go's \<^verbatim>\<open>int\<close> is a machine integer, of 64 bits on the usual
  platforms: \<open>i + 1\<close> and \<open>i - 1\<close> wrap around.
\<close>

definition ErrLeftParen :: error where
  "ErrLeftParen = ErrNew ''expected (''"

definition ErrRightParent :: error where
  "ErrRightParent = ErrNew ''expected )''"

definition Balance :: "64 word user_methods" where
  "Balance =
     \<lparr>uFinal = (\<lambda>i. if i = 0 then None else Some ErrRightParent),
      uNext = (\<lambda>i token.
        if token = ''('' then (Some (userI (i + 1)), True, None)
        else if token = '')'' then
          (if i = 0 then (None, False, Some ErrLeftParen)
           else if i = 1 then (None, True, None)
           else (Some (userI (i - 1)), True, None))
        else (None, False, Some ErrUnexpected))\<rparr>"

definition abcN :: "'u Iteratee" where
  "abcN = seqI [starI (seqI [matchI ''a'', matchI ''b'', starI (matchI ''c'')]),
                seqI [matchI ''x'', eofI]]"

definition ScanBytes :: "string \<Rightarrow> Scanner" where
  "ScanBytes input = NewScanner (map (\<lambda>c. [c]) input) None"

section \<open>States of a run\<close>

text \<open>
  The states that a run of \<open>Seq(Seq(xs...), ys...)\<close> goes through, each with the state
  that the run of \<open>Seq(xs..., ys...)\<close> is in at the same point of the input: the nested
  \<open>Seq\<close> itself, the rest of the inner \<open>Seq\<close> followed by the outer rest, and the
  continuation of an element followed by both.
\<close>

inductive seq_nest :: "'u Iteratee \<Rightarrow> 'u Iteratee \<Rightarrow> bool" where
  nest_Seq: "seq_nest (seqI (seqI xs # ys)) (seqI (xs @ ys))"
| nest_Then: "seq_nest (thenI (seqI xs) (seqI ys)) (seqI (xs @ ys))"
| nest_Cont: "seq_nest (thenI (thenI m (seqI xs)) (seqI ys)) (thenI m (seqI (xs @ ys)))"

text \<open>
  The tokens an enumerator still has to pass: the current token first, when the last
  transition left it unread.
\<close>

definition feed :: "ScanEnumerator \<Rightarrow> Token list" where
  "feed e = (if scan e then toks (inS e) else bytes (inS e) # toks (inS e))"

text \<open>
  One run of an Iteratee \<open>A\<close> over the tokens to come, as \<^verbatim>\<open>Step\<close> and the \<open>read\<close>
  flags make it. It \<^emph>\<open>completes\<close> when a transition returns a nil Iteratee and no
  error; the last argument is what is then left of the tokens.
\<close>

inductive completes :: "'u user_methods \<Rightarrow> 'u Iteratee \<Rightarrow> Token list \<Rightarrow> Token list \<Rightarrow> bool"
  for ms :: "'u user_methods" where
  completes_read: "Next ms A t = (None, True, None) \<Longrightarrow> completes ms A (t # ts) ts"
| completes_unread: "Next ms A t = (None, False, None) \<Longrightarrow> completes ms A (t # ts) (t # ts)"
| completes_cont_read:
    "Next ms A t = (Some n, True, None) \<Longrightarrow> completes ms n ts rest
       \<Longrightarrow> completes ms A (t # ts) rest"
| completes_cont_unread:
    "Next ms A t = (Some n, False, None) \<Longrightarrow> completes ms n (t # ts) rest
       \<Longrightarrow> completes ms A (t # ts) rest"

text \<open>
  It \<^emph>\<open>breaks\<close> when a transition returns an error: at the token \<open>u\<close>, with \<open>rest\<close>
  after it.
\<close>

inductive breaks ::
  "'u user_methods \<Rightarrow> 'u Iteratee \<Rightarrow> Token list \<Rightarrow> Token \<Rightarrow> Token list \<Rightarrow> error \<Rightarrow> bool"
  for ms :: "'u user_methods" where
  breaks_now: "Next ms A t = (nx, rd, Some err) \<Longrightarrow> breaks ms A (t # ts) t ts err"
| breaks_cont_read:
    "Next ms A t = (Some n, True, None) \<Longrightarrow> breaks ms n ts u rest err
       \<Longrightarrow> breaks ms A (t # ts) u rest err"
| breaks_cont_unread:
    "Next ms A t = (Some n, False, None) \<Longrightarrow> breaks ms n (t # ts) u rest err
       \<Longrightarrow> breaks ms A (t # ts) u rest err"

text \<open>
  It \<^emph>\<open>starves\<close> when the tokens end before it completes; the last argument is the
  state it is in then.
\<close>

inductive starves :: "'u user_methods \<Rightarrow> 'u Iteratee \<Rightarrow> Token list \<Rightarrow> 'u Iteratee \<Rightarrow> bool"
  for ms :: "'u user_methods" where
  starves_now: "starves ms A [] A"
| starves_cont_read:
    "Next ms A t = (Some n, True, None) \<Longrightarrow> starves ms n ts m \<Longrightarrow> starves ms A (t # ts) m"
| starves_cont_unread:
    "Next ms A t = (Some n, False, None) \<Longrightarrow> starves ms n (t # ts) m
       \<Longrightarrow> starves ms A (t # ts) m"

text \<open>Any number of runs of \<open>A\<close> that complete, one after the other.\<close>

inductive reps :: "'u user_methods \<Rightarrow> 'u Iteratee \<Rightarrow> Token list \<Rightarrow> Token list \<Rightarrow> bool"
  for ms :: "'u user_methods" and A :: "'u Iteratee" where
  reps_none: "reps ms A ts ts"
| reps_more: "completes ms A ts mid \<Longrightarrow> reps ms A mid rest \<Longrightarrow> reps ms A ts rest"

text \<open>
  Where a Star of \<open>A\<close> stops: at the end of the tokens, or at a token that the
  transition of \<open>A\<close> itself rejects.
\<close>

definition stops_at :: "'u user_methods \<Rightarrow> 'u Iteratee \<Rightarrow> Token list \<Rightarrow> bool" where
  "stops_at ms A ts = (case ts of [] \<Rightarrow> True | t # _ \<Rightarrow> snd (snd (Next ms A t)) \<noteq> None)"

text \<open>
  The continuations of an Iteratee \<open>A\<close>: the states \<open>A\<close> goes through after its
  first token and before it finishes.
\<close>

inductive conts :: "'u user_methods \<Rightarrow> 'u Iteratee \<Rightarrow> 'u Iteratee \<Rightarrow> bool"
  for ms :: "'u user_methods" and A :: "'u Iteratee" where
  conts_first: "Next ms A t = (Some n, rd, None) \<Longrightarrow> conts ms A n"
| conts_later: "conts ms A n \<Longrightarrow> Next ms n t = (Some n', rd, None) \<Longrightarrow> conts ms A n'"

text \<open>
  The states of a run of \<open>Star(A)\<close>: the Star itself, between repetitions, and a
  continuation of \<open>A\<close> followed by the Star, inside one.
\<close>

definition in_Star :: "'u user_methods \<Rightarrow> 'u Iteratee \<Rightarrow> 'u Iteratee \<Rightarrow> bool" where
  "in_Star ms A it = (it = starI A \<or> (\<exists>n. conts ms A n \<and> it = thenI n (starI A)))"

section \<open>One call of Step\<close>

text \<open>The three ways through \<^verbatim>\<open>Step\<close>: the scan fails, the scan gives a token, the
  current token is used again.\<close>

lemma Step_end:
  assumes "scan e" and "toks (inS e) = []"
  shows "Step ms e it =
           (e\<lparr>inS := (inS e)\<lparr>bytes := []\<rparr>\<rparr>, None,
            (case serr (inS e) of None \<Rightarrow> Final ms it | Some err \<Rightarrow> Some err))"
  using assms by (simp add: Step_def Scan_def Err_def Let_def)

lemma Step_scan:
  assumes "scan e" and "toks (inS e) = t # ts"
  shows "Step ms e it =
           (case Next ms it t of
              (next, read, err) \<Rightarrow>
                (e\<lparr>inS := (inS e)\<lparr>toks := ts, bytes := t\<rparr>, scan := read\<rparr>, next,
                 WrapTokenError t err))"
  using assms by (simp add: Step_def Scan_def Let_def)

lemma Step_reuse:
  assumes "\<not> scan e"
  shows "Step ms e it =
           (case Next ms it (bytes (inS e)) of
              (next, read, err) \<Rightarrow>
                (e\<lparr>scan := read\<rparr>, next, WrapTokenError (bytes (inS e)) err))"
  using assms by (simp add: Step_def Let_def)

text \<open>When \<^verbatim>\<open>Step\<close> reaches \<^verbatim>\<open>it.Next\<close>, the token it passes is the one the scanner
  holds afterwards, whatever the Iteratee, and the results are those of \<^verbatim>\<open>it.Next\<close> on
  that token. The error the scanner ends with stays what it is.\<close>

lemma Step_token:
  assumes "\<not> (scan e \<and> toks (inS e) = [])"
  shows "\<exists>s. serr s = serr (inS e) \<and> (\<forall>it. Step ms e it =
           (case Next ms it (bytes s) of
              (next, read, err) \<Rightarrow>
                (e\<lparr>inS := s, scan := read\<rparr>, next, WrapTokenError (bytes s) err)))"
proof (cases "scan e")
  case True
  with assms obtain t ts where "toks (inS e) = t # ts"
    by (cases "toks (inS e)") auto
  with True have "\<forall>it. Step ms e it =
      (case Next ms it (bytes ((inS e)\<lparr>toks := ts, bytes := t\<rparr>)) of
         (next, read, err) \<Rightarrow>
           (e\<lparr>inS := (inS e)\<lparr>toks := ts, bytes := t\<rparr>, scan := read\<rparr>, next,
            WrapTokenError (bytes ((inS e)\<lparr>toks := ts, bytes := t\<rparr>)) err))"
    by (simp add: Step_scan)
  moreover have "serr ((inS e)\<lparr>toks := ts, bytes := t\<rparr>) = serr (inS e)" by simp
  ultimately show ?thesis by blast
next
  case False
  then have "\<forall>it. Step ms e it =
      (case Next ms it (bytes (inS e)) of
         (next, read, err) \<Rightarrow>
           (e\<lparr>inS := inS e, scan := read\<rparr>, next, WrapTokenError (bytes (inS e)) err))"
    by (simp add: Step_reuse)
  then show ?thesis by blast
qed

lemma Step_delivers:
  assumes "\<not> (scan e \<and> toks (inS e) = [])"
  shows "\<exists>s. Step ms e it =
           (case Next ms it (bytes s) of
              (next, read, err) \<Rightarrow>
                (e\<lparr>inS := s, scan := read\<rparr>, next, WrapTokenError (bytes s) err))"
  using Step_token [OF assms, of ms] by blast

text \<open>\<^verbatim>\<open>Step\<close> in terms of the tokens to come.\<close>

lemma Step_feed:
  assumes "feed e = t # ts"
  shows "Step ms e it =
           (case Next ms it t of
              (next, read, err) \<Rightarrow>
                (\<lparr>inS = \<lparr>toks = ts, serr = serr (inS e), bytes = t\<rparr>, scan = read\<rparr>, next,
                 WrapTokenError t err))"
proof (cases "scan e")
  case True
  with assms have "toks (inS e) = t # ts" by (simp add: feed_def)
  with True show ?thesis by (cases e; cases "inS e") (simp add: Step_scan)
next
  case False
  with assms have "bytes (inS e) = t" "toks (inS e) = ts" by (simp_all add: feed_def)
  with False show ?thesis by (cases e; cases "inS e") (simp add: Step_reuse)
qed

lemma Step_feed_end:
  assumes "feed e = []"
  shows "Step ms e it =
           (\<lparr>inS = \<lparr>toks = [], serr = serr (inS e), bytes = []\<rparr>, scan = True\<rparr>, None,
            (case serr (inS e) of None \<Rightarrow> Final ms it | Some err \<Rightarrow> Some err))"
proof -
  from assms have "scan e" "toks (inS e) = []" by (simp_all add: feed_def split: if_splits)
  then show ?thesis by (cases e; cases "inS e") (simp add: Step_end)
qed

text \<open>The three ways through one turn of the loop of \<^verbatim>\<open>Run\<close>.\<close>

lemma Run_Suc_err:
  "Step ms e it = (e', nx, Some err) \<Longrightarrow> Run (Suc n) ms e it = Some (e', Some err)"
  by (cases nx) simp_all

lemma Run_Suc_done:
  "Step ms e it = (e', None, err) \<Longrightarrow> Run (Suc n) ms e it = Some (e', err)"
  by (cases err) simp_all

lemma Run_Suc_cont:
  "Step ms e it = (e', Some it', None) \<Longrightarrow> Run (Suc n) ms e it = Run n ms e' it'"
  by simp

lemma Run_numeral:
  "Run (numeral k) ms e it =
     (case Step ms e it of
        (e', _, Some err) \<Rightarrow> Some (e', Some err)
      | (e', None, None) \<Rightarrow> Some (e', None)
      | (e', Some it', None) \<Rightarrow> Run (pred_numeral k) ms e' it')"
  by (simp add: numeral_eq_Suc)

lemma WrapTokenError_None [simp]: "WrapTokenError t None = None"
  by (simp add: WrapTokenError_def)

lemma WrapTokenError_Some [simp]: "WrapTokenError t (Some x) = Some (TokenErr t x)"
  by (simp add: WrapTokenError_def)

section \<open>The package's test\<close>

text \<open>The runs of the test file give what the test expects of them.\<close>

lemma test_abcN_good:
  "map_option snd (Run 20 no_user (NewScanEnumerator (ScanBytes ''ababcabccx'')) abcN) = Some None"
  by (simp add: eval_nat_numeral abcN_def ScanBytes_def Step_scan Step_reuse Step_end
      NewScanEnumerator_def NewScanner_def)

lemma test_abcN_bad:
  "map_option snd (Run 20 no_user (NewScanEnumerator (ScanBytes ''abxy'')) abcN) =
     Some (Some (TokenErr ''y'' (ErrExpect ''<eof>'')))"
  by (simp add: eval_nat_numeral abcN_def ScanBytes_def Step_scan Step_reuse Step_end
      NewScanEnumerator_def NewScanner_def)

lemma test_Balance:
  "map_option snd (Run 20 Balance (NewScanEnumerator (ScanBytes ''(()(()))'')) (userI 0))
     = Some None"
  "map_option snd (Run 20 Balance (NewScanEnumerator (ScanBytes ''(()(()))('')) (userI 0))
     = Some None"
  "map_option snd (Run 20 Balance (NewScanEnumerator (ScanBytes ''(()(())'')) (userI 0))
     = Some (Some ErrRightParent)"
  "map_option snd (Run 20 Balance (NewScanEnumerator (ScanBytes ''(()(()))(''))
       (seqI [userI 0, eofI]))
     = Some (Some (TokenErr ''('' (ErrExpect ''<eof>'')))"
  by (simp_all add: Run_numeral Balance_def ScanBytes_def Step_scan Step_reuse Step_end
      NewScanEnumerator_def NewScanner_def)

section \<open>The combinators\<close>

text \<open>
  C2. When the transition of the inner Iteratee on a token returns an error, the
  transition of \<open>Star(inner)\<close> on that token returns no error, no next Iteratee and
  \<open>read = false\<close>: the token is left for whatever follows the Star.
\<close>

theorem Star_Next_inner_error:
  assumes "snd (snd (Next ms A token)) \<noteq> None"
  shows "Next ms (starI A) token = (None, False, None)"
  using assms by (auto split: prod.splits option.splits)

theorem Star_Next_inner_error_witness:
  "snd (snd (Next no_user (matchI ''a'') ''b'')) \<noteq> None
   \<and> Next no_user (starI (matchI ''a'')) ''b'' = (None, False, None)"
  using Star_Next_inner_error [of no_user "matchI ''a''" "''b''"] by simp

text \<open>
  C9. The transition of the empty \<open>Seq\<close> on any token returns no next Iteratee,
  \<open>read = false\<close> and no error. Inside a larger composition (as the head of a
  \<open>thenI\<close>, or as the first element of a \<open>Seq\<close>) the token is therefore handed on,
  unread, to what follows.
\<close>

theorem Seq_empty_Next:
  "Next ms (seqI []) token = (None, False, None)
   \<and> Next ms (thenI (seqI []) B) token = (Some B, False, None)
   \<and> Next ms (seqI (seqI [] # its)) token = (Some (seqI its), False, None)"
  by simp

theorem Seq_empty_Next_witness:
  "Next no_user (seqI []) ''a'' = (None, False, None)
   \<and> Next no_user (thenI (seqI []) eofI) ''a'' = (Some eofI, False, None)
   \<and> Next no_user (seqI [seqI [], matchI ''a'']) ''a'' = (Some (seqI [matchI ''a'']), False, None)"
  using Seq_empty_Next [of no_user "''a''" eofI "[matchI ''a'']"]
    Seq_empty_Next [of no_user "''a''" eofI "[]"] by simp

text \<open>
  C5, as the code has it. The transition of \<open>Match(L)\<close> on a token \<open>t\<close> returns no
  next Iteratee, \<open>read = true\<close> and no error exactly when \<open>t\<close> is \<open>L\<close>. On any other
  token it returns \<open>read = false\<close> and the error \<open>ErrExpectQ(L)\<close>, which holds the
  expected literal only; \<^verbatim>\<open>Final\<close> returns the same \<open>ErrExpectQ(L)\<close>. In the earlier
  revision of stream.go the transition on another token returns
  \<open>ErrMistmatch{L, t}\<close>, which holds both, and \<^verbatim>\<open>Final\<close> returns the fixed
  \<open>ErrUnexpectedEnd\<close>, which does not name \<open>L\<close>.
\<close>

theorem Match_Next_Final:
  "(Next ms (matchI L) t = (None, True, None)) = (t = L)
   \<and> Next ms (matchI L) t =
       (if t = L then (None, True, None) else (None, False, Some (ErrExpectQ L)))
   \<and> Final ms (matchI L) = Some (ErrExpectQ L)
   \<and> stream_Match_Next L t =
       (if t = L then (None, True, None) else (None, False, Some (ErrMistmatch L t)))
   \<and> stream_Match_Final L = Some ErrUnexpectedEnd"
  by (simp add: stream_Match_Next_def stream_Match_Final_def)

theorem Match_Next_Final_witness:
  "Next no_user (matchI ''a'') ''a'' = (None, True, None)
   \<and> Next no_user (matchI ''a'') ''b'' = (None, False, Some (ErrExpectQ ''a''))
   \<and> Final no_user (matchI ''a'') = Some (ErrExpectQ ''a'')"
  using Match_Next_Final [of no_user "''a''" "''a''"]
    Match_Next_Final [of no_user "''a''" "''b''"] by simp

text \<open>
  The claim as the specification states it fails: on the tokens \<open>b\<close> and \<open>c\<close> the
  transition of \<open>Match(a)\<close> returns one and the same error, which is not a mismatch
  of \<open>a\<close> and \<open>b\<close>; and in stream.go the \<^verbatim>\<open>Final\<close> of \<open>Match(a)\<close> and of
  \<open>Match(b)\<close> return one and the same error.
\<close>

theorem Match_mismatch_counterexample:
  "snd (snd (Next no_user (matchI ''a'') ''b'')) \<noteq> Some (ErrMistmatch ''a'' ''b'')
   \<and> snd (snd (Next no_user (matchI ''a'') ''b'')) = snd (snd (Next no_user (matchI ''a'') ''c''))
   \<and> stream_Match_Final ''a'' = stream_Match_Final ''b''"
  by (simp add: stream_Match_Final_def)




section \<open>The driver\<close>

text \<open>
  C4. When the enumerator must scan and no token is left, \<^verbatim>\<open>Step\<close> returns a nil
  Iteratee, and \<^verbatim>\<open>Run\<close> returns at that call: with the result of \<^verbatim>\<open>Final\<close> of the
  current Iteratee when the scanner reports no error, and with the scanner's error as it
  is (not wrapped, \<^verbatim>\<open>Final\<close> not asked) when it reports one.
\<close>

theorem Run_exhausted:
  assumes "scan e" and "toks (inS e) = []"
  shows "Step ms e it =
           (e\<lparr>inS := (inS e)\<lparr>bytes := []\<rparr>\<rparr>, None,
            (case serr (inS e) of None \<Rightarrow> Final ms it | Some err \<Rightarrow> Some err))
         \<and> Run (Suc n) ms e it =
           Some (e\<lparr>inS := (inS e)\<lparr>bytes := []\<rparr>\<rparr>,
                 (case serr (inS e) of None \<Rightarrow> Final ms it | Some err \<Rightarrow> Some err))"
  using assms by (simp add: Step_end split: option.splits)

theorem Run_exhausted_witness:
  "Run 1 no_user (NewScanEnumerator (NewScanner [] None)) (matchI ''a'') =
     Some (NewScanEnumerator (NewScanner [] None), Some (ErrExpectQ ''a''))
   \<and> Run 1 no_user (NewScanEnumerator (NewScanner [] None)) (starI (matchI ''a'')) =
     Some (NewScanEnumerator (NewScanner [] None), None)
   \<and> Run 1 no_user (NewScanEnumerator (NewScanner [] (Some (ErrNew ''read failed'')))) (matchI ''a'') =
     Some (NewScanEnumerator (NewScanner [] (Some (ErrNew ''read failed''))),
           Some (ErrNew ''read failed''))"
  using Run_exhausted [of "NewScanEnumerator (NewScanner [] None)" no_user "matchI ''a''" 0]
    Run_exhausted [of "NewScanEnumerator (NewScanner [] None)" no_user "starI (matchI ''a'')" 0]
    Run_exhausted [of "NewScanEnumerator (NewScanner [] (Some (ErrNew ''read failed'')))"
      no_user "matchI ''a''" 0]
  by (simp add: NewScanEnumerator_def NewScanner_def)

text \<open>
  C7. When \<^verbatim>\<open>Step\<close> passes a token to the transition of the current Iteratee (the
  token then is the one the scanner holds after the call), the error it returns is the
  transition's error wrapped in a \<open>TokenErr\<close> with the content of that token, and nil
  when the transition's error is nil; \<^verbatim>\<open>Run\<close> returns a wrapped error at once.
\<close>

theorem Step_wraps_error:
  assumes "\<not> (scan e \<and> toks (inS e) = [])"
    and "Step ms e it = (e', next, err')"
    and "token = bytes (inS e')"
  shows "err' = (case snd (snd (Next ms it token)) of
                   None \<Rightarrow> None
                 | Some err \<Rightarrow> Some (TokenErr token err))
         \<and> (snd (snd (Next ms it token)) \<noteq> None \<longrightarrow> Run (Suc n) ms e it = Some (e', err'))"
proof -
  from Step_delivers [OF assms(1), of ms it] obtain s where
    s: "Step ms e it =
          (case Next ms it (bytes s) of
             (next, read, err) \<Rightarrow>
               (e\<lparr>inS := s, scan := read\<rparr>, next, WrapTokenError (bytes s) err))"
    by blast
  obtain nx rd er where n: "Next ms it (bytes s) = (nx, rd, er)"
    by (cases "Next ms it (bytes s)") auto
  from s n assms(2) have e': "e' = e\<lparr>inS := s, scan := rd\<rparr>" and "next = nx"
    and err': "err' = WrapTokenError (bytes s) er"
    by simp_all
  from e' assms(3) have t: "token = bytes s" by simp
  have "err' = (case er of None \<Rightarrow> None | Some err \<Rightarrow> Some (TokenErr token err))"
    using err' t by (cases er) simp_all
  moreover have "Run (Suc n) ms e it = Some (e', err')" if "er \<noteq> None"
    using that assms(2) err' by (cases er) (auto simp: Run_Suc_err simp del: Run.simps)
  ultimately show ?thesis using n t by simp
qed

theorem Step_wraps_error_witness:
  "Step no_user (NewScanEnumerator (NewScanner [''b''] None)) (matchI ''a'') =
     (\<lparr>inS = \<lparr>toks = [], serr = None, bytes = ''b''\<rparr>, scan = False\<rparr>, None,
      Some (TokenErr ''b'' (ErrExpectQ ''a'')))
   \<and> Run (Suc 0) no_user (NewScanEnumerator (NewScanner [''b''] None)) (matchI ''a'') =
     Some (\<lparr>inS = \<lparr>toks = [], serr = None, bytes = ''b''\<rparr>, scan = False\<rparr>,
           Some (TokenErr ''b'' (ErrExpectQ ''a'')))"
proof -
  let ?e = "NewScanEnumerator (NewScanner [''b''] None)"
  let ?e' = "\<lparr>inS = \<lparr>toks = [], serr = None, bytes = ''b''\<rparr>, scan = False\<rparr>"
  have d: "\<not> (scan ?e \<and> toks (inS ?e) = [])"
    by (simp add: NewScanEnumerator_def NewScanner_def)
  have st: "Step no_user ?e (matchI ''a'') =
      (?e', None, Some (TokenErr ''b'' (ErrExpectQ ''a'')))"
    by (simp add: Step_scan NewScanEnumerator_def NewScanner_def)
  have tk: "''b'' = bytes (inS ?e')" by simp
  from Step_wraps_error [OF d st tk, of 0] st show ?thesis by simp
qed

text \<open>
  C3. After a call of \<^verbatim>\<open>Step\<close> that passes a token to the transition, the
  enumerator's \<open>scan\<close> flag is the \<open>read\<close> flag the transition returned. When that
  flag is false, the following call of \<^verbatim>\<open>Step\<close>, on whatever Iteratee, does not
  advance the scanner and passes the very same token.
\<close>

theorem Step_scan_flag:
  assumes "\<not> (scan e \<and> toks (inS e) = [])"
    and "Step ms e it = (e', next, err')"
    and "token = bytes (inS e')"
  shows "scan e' = fst (snd (Next ms it token))
         \<and> next = fst (Next ms it token)
         \<and> (\<not> scan e' \<longrightarrow>
              (\<forall>it'. Step ms e' it' =
                 (case Next ms it' token of
                    (next', read', err'') \<Rightarrow>
                      (e'\<lparr>scan := read'\<rparr>, next', WrapTokenError token err''))))"
proof -
  from Step_delivers [OF assms(1), of ms it] obtain s where
    s: "Step ms e it =
          (case Next ms it (bytes s) of
             (next, read, err) \<Rightarrow>
               (e\<lparr>inS := s, scan := read\<rparr>, next, WrapTokenError (bytes s) err))"
    by blast
  obtain nx rd er where n: "Next ms it (bytes s) = (nx, rd, er)"
    by (cases "Next ms it (bytes s)") auto
  from s n assms(2) have e': "e' = e\<lparr>inS := s, scan := rd\<rparr>" and nx: "next = nx"
    by simp_all
  from e' assms(3) have t: "token = bytes s" by simp
  have "scan e' = fst (snd (Next ms it token))" using e' n t by simp
  moreover have "next = fst (Next ms it token)" using nx n t by simp
  moreover have "Step ms e' it' =
      (case Next ms it' token of
         (next', read', err'') \<Rightarrow>
           (e'\<lparr>scan := read'\<rparr>, next', WrapTokenError token err''))"
    if "\<not> scan e'" for it'
    using Step_reuse [OF that, of ms it'] assms(3) by simp
  ultimately show ?thesis by blast
qed

theorem Step_scan_flag_witness:
  "Step no_user (NewScanEnumerator (NewScanner [''b'', ''c''] None)) (skipAnyI ''a'') =
     (\<lparr>inS = \<lparr>toks = [''c''], serr = None, bytes = ''b''\<rparr>, scan = False\<rparr>, None, None)
   \<and> Step no_user \<lparr>inS = \<lparr>toks = [''c''], serr = None, bytes = ''b''\<rparr>, scan = False\<rparr>
        (matchI ''b'') =
     (\<lparr>inS = \<lparr>toks = [''c''], serr = None, bytes = ''b''\<rparr>, scan = True\<rparr>, None, None)"
proof -
  let ?e = "NewScanEnumerator (NewScanner [''b'', ''c''] None)"
  let ?e' = "\<lparr>inS = \<lparr>toks = [''c''], serr = None, bytes = ''b''\<rparr>, scan = False\<rparr>"
  have d: "\<not> (scan ?e \<and> toks (inS ?e) = [])"
    by (simp add: NewScanEnumerator_def NewScanner_def)
  have st: "Step no_user ?e (skipAnyI ''a'') = (?e', None, None)"
    by (simp add: Step_scan NewScanEnumerator_def NewScanner_def)
  have tk: "''b'' = bytes (inS ?e')" by simp
  from Step_scan_flag [OF d st tk] have
    "\<forall>it'. Step no_user ?e' it' =
       (case Next no_user it' ''b'' of
          (next', read', err'') \<Rightarrow>
            (?e'\<lparr>scan := read'\<rparr>, next', WrapTokenError ''b'' err''))"
    by simp
  then have "Step no_user ?e' (matchI ''b'') =
       (case Next no_user (matchI ''b'') ''b'' of
          (next', read', err'') \<Rightarrow>
            (?e'\<lparr>scan := read'\<rparr>, next', WrapTokenError ''b'' err''))"
    by blast
  with st show ?thesis by simp
qed

section \<open>Runs that do not return\<close>

text \<open>
  A Star whose inner Iteratee finishes on every token without reading it returns
  itself with \<open>read = false\<close>: the enumerator keeps the token, and the next turn of
  the loop is in the same situation.
\<close>

lemma Star_Next_no_progress:
  assumes "Next ms A token = (None, False, None)"
  shows "Next ms (starI A) token = (Some (starI A), False, None)"
  using assms by simp

lemma Run_Star_no_progress:
  assumes "\<forall>token. Next ms A token = (None, False, None)"
    and "\<not> (scan e \<and> toks (inS e) = [])"
  shows "Run n ms e (starI A) = None"
  using assms(2)
proof (induction n arbitrary: e)
  case 0
  show ?case by simp
next
  case (Suc n)
  from Step_delivers [OF Suc.prems, of ms "starI A"] obtain s where
    "Step ms e (starI A) =
       (case Next ms (starI A) (bytes s) of
          (next, read, err) \<Rightarrow>
            (e\<lparr>inS := s, scan := read\<rparr>, next, WrapTokenError (bytes s) err))"
    by blast
  moreover have "Next ms (starI A) (bytes s) = (Some (starI A), False, None)"
    using assms(1) by (simp add: Star_Next_no_progress)
  ultimately have st: "Step ms e (starI A) = (e\<lparr>inS := s, scan := False\<rparr>, Some (starI A), None)"
    by simp
  have "\<not> (scan (e\<lparr>inS := s, scan := False\<rparr>) \<and> toks (inS (e\<lparr>inS := s, scan := False\<rparr>)) = [])"
    by simp
  then have "Run n ms (e\<lparr>inS := s, scan := False\<rparr>) (starI A) = None"
    by (rule Suc.IH)
  with st show ?case by (simp add: Run_Suc_cont del: Run.simps)
qed

text \<open>
  C10. \<^verbatim>\<open>Run\<close> does not always return. On an input with at least one token, the run
  of \<open>Star(Seq())\<close>, and of the Star of any Iteratee whose transition finishes on
  every token without reading it, is still going after any number of calls of
  \<^verbatim>\<open>Step\<close>.
\<close>

theorem Run_Star_Seq_empty_diverges:
  assumes "toks s \<noteq> []"
  shows "Run n ms (NewScanEnumerator s) (starI (seqI [])) = None
         \<and> ((\<forall>token. Next ms A token = (None, False, None))
              \<longrightarrow> Run n ms (NewScanEnumerator s) (starI A) = None)"
proof -
  have d: "\<not> (scan (NewScanEnumerator s) \<and> toks (inS (NewScanEnumerator s)) = [])"
    using assms by (simp add: NewScanEnumerator_def)
  have "\<forall>token. Next ms (seqI []) token = (None, False, None)" by simp
  then have "Run n ms (NewScanEnumerator s) (starI (seqI [])) = None"
    using d by (rule Run_Star_no_progress)
  moreover have "Run n ms (NewScanEnumerator s) (starI A) = None"
    if "\<forall>token. Next ms A token = (None, False, None)"
    using that d by (rule Run_Star_no_progress)
  ultimately show ?thesis by blast
qed

theorem Run_Star_Seq_empty_diverges_witness:
  "toks (NewScanner [''a''] None) \<noteq> []
   \<and> (\<forall>n. Run n no_user (NewScanEnumerator (NewScanner [''a''] None)) (starI (seqI [])) = None)"
proof -
  have h: "toks (NewScanner [''a''] None) \<noteq> []" by (simp add: NewScanner_def)
  from Run_Star_Seq_empty_diverges [OF h, of _ no_user] h show ?thesis by blast
qed

section \<open>Runs of a Star\<close>

text \<open>The transition of a Star returns no error, whatever the inner Iteratee does.\<close>

lemma Star_Next_no_error: "snd (snd (Next ms (starI A) token)) = None"
  by (auto split: prod.splits option.splits)

text \<open>
  An inner Iteratee of one token: each transition of it that returns no error
  finishes and reads the token (\<open>Match\<close>, \<open>Skip\<close>). The run of its Star reads the
  tokens as long as the inner transition accepts them, and stops at the first token it
  rejects, which stays the current token of the enumerator, or at the end of the input.
\<close>

lemma Run_Star_one_token:
  assumes one: "\<forall>t. snd (snd (Next ms A t)) = None \<longrightarrow> Next ms A t = (None, True, None)"
    and fuel: "length ts < n"
  shows "Run n ms \<lparr>inS = \<lparr>toks = ts, serr = failure, bytes = b\<rparr>, scan = True\<rparr> (starI A) =
           Some (case dropWhile (\<lambda>t. snd (snd (Next ms A t)) = None) ts of
                   [] \<Rightarrow> (\<lparr>inS = \<lparr>toks = [], serr = failure, bytes = []\<rparr>, scan = True\<rparr>,
                          failure)
                 | t # rest \<Rightarrow>
                     (\<lparr>inS = \<lparr>toks = rest, serr = failure, bytes = t\<rparr>, scan = False\<rparr>,
                      None))"
  using fuel
proof (induction ts arbitrary: n b)
  case Nil
  then obtain m where n: "n = Suc m" by (cases n) auto
  let ?e = "\<lparr>inS = \<lparr>toks = [], serr = failure, bytes = b\<rparr>, scan = True\<rparr>"
  have "Step ms ?e (starI A) =
      (\<lparr>inS = \<lparr>toks = [], serr = failure, bytes = []\<rparr>, scan = True\<rparr>, None, failure)"
    by (cases failure) (simp_all add: Step_end)
  then show ?case unfolding n by (simp add: Run_Suc_done del: Run.simps)
next
  case (Cons t ts)
  then obtain m where n: "n = Suc m" and m: "length ts < m" by (cases n) auto
  let ?e = "\<lparr>inS = \<lparr>toks = t # ts, serr = failure, bytes = b\<rparr>, scan = True\<rparr>"
  show ?case
  proof (cases "snd (snd (Next ms A t)) = None")
    case True
    with one have "Next ms A t = (None, True, None)" by blast
    then have "Next ms (starI A) t = (Some (starI A), True, None)" by simp
    then have "Step ms ?e (starI A) =
        (\<lparr>inS = \<lparr>toks = ts, serr = failure, bytes = t\<rparr>, scan = True\<rparr>, Some (starI A), None)"
      by (simp add: Step_scan)
    then have "Run n ms ?e (starI A) =
        Run m ms \<lparr>inS = \<lparr>toks = ts, serr = failure, bytes = t\<rparr>, scan = True\<rparr> (starI A)"
      unfolding n by (rule Run_Suc_cont)
    with Cons.IH [OF m, of t] True show ?thesis by simp
  next
    case False
    then have "Next ms (starI A) t = (None, False, None)"
      by (auto split: prod.splits option.splits)
    then have "Step ms ?e (starI A) =
        (\<lparr>inS = \<lparr>toks = ts, serr = failure, bytes = t\<rparr>, scan = False\<rparr>, None, None)"
      by (simp add: Step_scan)
    then have "Run n ms ?e (starI A) =
        Some (\<lparr>inS = \<lparr>toks = ts, serr = failure, bytes = t\<rparr>, scan = False\<rparr>, None)"
      unfolding n by (rule Run_Suc_done)
    moreover have "dropWhile (\<lambda>t. snd (snd (Next ms A t)) = None) (t # ts) = t # ts"
      using False by (simp del: not_None_eq)
    ultimately show ?thesis by (simp del: dropWhile.simps)
  qed
qed

text \<open>
  An inner Iteratee whose continuations return no error, neither from \<^verbatim>\<open>Next\<close> nor
  from \<^verbatim>\<open>Final\<close>: every state of the run of its Star returns no error either, so
  that the run can only return the error of the scanner.
\<close>

lemma in_Star_Next:
  assumes ok: "\<forall>n. conts ms A n \<longrightarrow> Final ms n = None \<and> (\<forall>t. snd (snd (Next ms n t)) = None)"
    and inv: "in_Star ms A it"
  shows "\<exists>nx rd. Next ms it t = (nx, rd, None) \<and> (\<forall>it'. nx = Some it' \<longrightarrow> in_Star ms A it')"
proof -
  from inv consider (star) "it = starI A" | (cont) n where "conts ms A n" "it = thenI n (starI A)"
    unfolding in_Star_def by blast
  then show ?thesis
  proof cases
    case star
    obtain nx rd er where n: "Next ms A t = (nx, rd, er)" by (cases "Next ms A t") auto
    show ?thesis
    proof (cases er)
      case (Some x)
      with star n show ?thesis by (cases nx) auto
    next
      case None
      show ?thesis
      proof (cases nx)
        case None
        with star n \<open>er = None\<close> show ?thesis by (simp add: in_Star_def)
      next
        case (Some m)
        with n \<open>er = None\<close> have "conts ms A m" by (auto intro: conts_first)
        with star n Some \<open>er = None\<close> show ?thesis by (simp add: in_Star_def)
      qed
    qed
  next
    case cont
    obtain nx rd er where n: "Next ms n t = (nx, rd, er)" by (cases "Next ms n t") auto
    from ok cont(1) have "snd (snd (Next ms n t)) = None" by blast
    with n have er: "er = None" by simp
    show ?thesis
    proof (cases nx)
      case None
      with cont n er show ?thesis by (simp add: in_Star_def)
    next
      case (Some m)
      with n er cont(1) have "conts ms A m" by (auto intro: conts_later)
      with cont n Some er show ?thesis by (simp add: in_Star_def)
    qed
  qed
qed

lemma in_Star_Final:
  assumes ok: "\<forall>n. conts ms A n \<longrightarrow> Final ms n = None \<and> (\<forall>t. snd (snd (Next ms n t)) = None)"
    and inv: "in_Star ms A it"
  shows "Final ms it = None"
  using assms unfolding in_Star_def by auto

lemma Run_in_Star:
  assumes ok: "\<forall>n. conts ms A n \<longrightarrow> Final ms n = None \<and> (\<forall>t. snd (snd (Next ms n t)) = None)"
    and inv: "in_Star ms A it"
    and run: "Run k ms e it = Some (e', err)"
  shows "err = None \<or> err = serr (inS e)"
  using inv run
proof (induction k arbitrary: e it)
  case 0
  then show ?case by simp
next
  case (Suc k)
  show ?case
  proof (cases "scan e \<and> toks (inS e) = []")
    case True
    have "Final ms it = None" using ok Suc.prems(1) by (rule in_Star_Final)
    with True have "Step ms e it = (e\<lparr>inS := (inS e)\<lparr>bytes := []\<rparr>\<rparr>, None, serr (inS e))"
      by (cases "serr (inS e)") (simp_all add: Step_end)
    then have "Run (Suc k) ms e it = Some (e\<lparr>inS := (inS e)\<lparr>bytes := []\<rparr>\<rparr>, serr (inS e))"
      by (rule Run_Suc_done)
    with Suc.prems(2) show ?thesis by simp
  next
    case False
    from Step_token [OF False, of ms] obtain s where s: "serr s = serr (inS e)" and
      st: "\<forall>it. Step ms e it =
           (case Next ms it (bytes s) of
              (next, read, err) \<Rightarrow>
                (e\<lparr>inS := s, scan := read\<rparr>, next, WrapTokenError (bytes s) err))"
      by blast
    from in_Star_Next [OF ok Suc.prems(1), of "bytes s"] obtain nx rd where
      n: "Next ms it (bytes s) = (nx, rd, None)" and
      i: "\<forall>it'. nx = Some it' \<longrightarrow> in_Star ms A it'"
      by blast
    from st n have step: "Step ms e it = (e\<lparr>inS := s, scan := rd\<rparr>, nx, None)" by simp
    show ?thesis
    proof (cases nx)
      case None
      with step have "Run (Suc k) ms e it = Some (e\<lparr>inS := s, scan := rd\<rparr>, None)"
        by (simp add: Run_Suc_done del: Run.simps)
      with Suc.prems(2) show ?thesis by simp
    next
      case (Some it')
      with step have "Run (Suc k) ms e it = Run k ms (e\<lparr>inS := s, scan := rd\<rparr>) it'"
        by (simp add: Run_Suc_cont del: Run.simps)
      with Suc.prems(2) have "Run k ms (e\<lparr>inS := s, scan := rd\<rparr>) it' = Some (e', err)"
        by simp
      moreover from i Some have "in_Star ms A it'" by blast
      ultimately have "err = None \<or> err = serr (inS (e\<lparr>inS := s, scan := rd\<rparr>))"
        by (rule Suc.IH [rotated])
      with s show ?thesis by simp
    qed
  qed
qed

lemma Then_Next_error:
  "Next ms A t = (nx, rd, Some err) \<Longrightarrow> Next ms (thenI A B) t = (None, False, Some err)"
  by (cases nx) simp_all

text \<open>
  The run of \<open>thenI A B\<close> follows the run of \<open>A\<close>: when \<open>A\<close> completes it goes on
  with \<open>B\<close> on what is left, when \<open>A\<close> breaks it returns the error wrapped with the
  token, when \<open>A\<close> starves it returns the scanner's error or \<^verbatim>\<open>Final\<close>.
\<close>

lemma Then_completes:
  assumes "completes ms A ts rest" and "feed e = ts"
  shows "\<exists>k e'. feed e' = rest \<and> serr (inS e') = serr (inS e)
           \<and> (\<forall>j. Run (k + j) ms e (thenI A B) = Run j ms e' B)"
  using assms
proof (induction arbitrary: e rule: completes.induct)
  case (completes_read A t ts)
  let ?e' = "\<lparr>inS = \<lparr>toks = ts, serr = serr (inS e), bytes = t\<rparr>, scan = True\<rparr>"
  from completes_read have "Step ms e (thenI A B) = (?e', Some B, None)"
    by (simp add: Step_feed)
  then have "\<forall>j. Run (Suc 0 + j) ms e (thenI A B) = Run j ms ?e' B"
    by (simp add: Run_Suc_cont del: Run.simps)
  moreover have "feed ?e' = ts" "serr (inS ?e') = serr (inS e)" by (simp_all add: feed_def)
  ultimately show ?case by blast
next
  case (completes_unread A t ts)
  let ?e' = "\<lparr>inS = \<lparr>toks = ts, serr = serr (inS e), bytes = t\<rparr>, scan = False\<rparr>"
  from completes_unread have "Step ms e (thenI A B) = (?e', Some B, None)"
    by (simp add: Step_feed)
  then have "\<forall>j. Run (Suc 0 + j) ms e (thenI A B) = Run j ms ?e' B"
    by (simp add: Run_Suc_cont del: Run.simps)
  moreover have "feed ?e' = t # ts" "serr (inS ?e') = serr (inS e)" by (simp_all add: feed_def)
  ultimately show ?case by blast
next
  case (completes_cont_read A t n ts rest)
  let ?e1 = "\<lparr>inS = \<lparr>toks = ts, serr = serr (inS e), bytes = t\<rparr>, scan = True\<rparr>"
  from completes_cont_read.hyps(1) completes_cont_read.prems
  have "Step ms e (thenI A B) = (?e1, Some (thenI n B), None)"
    by (simp add: Step_feed)
  then have st: "\<forall>j. Run (Suc j) ms e (thenI A B) = Run j ms ?e1 (thenI n B)"
    by (simp add: Run_Suc_cont del: Run.simps)
  have "feed ?e1 = ts" by (simp add: feed_def)
  from completes_cont_read.IH [OF this] obtain k e' where
    "feed e' = rest" "serr (inS e') = serr (inS e)"
    "\<forall>j. Run (k + j) ms ?e1 (thenI n B) = Run j ms e' B"
    by auto
  with st have "\<forall>j. Run (Suc k + j) ms e (thenI A B) = Run j ms e' B" by simp
  with \<open>feed e' = rest\<close> \<open>serr (inS e') = serr (inS e)\<close> show ?case by blast
next
  case (completes_cont_unread A t n ts rest)
  let ?e1 = "\<lparr>inS = \<lparr>toks = ts, serr = serr (inS e), bytes = t\<rparr>, scan = False\<rparr>"
  from completes_cont_unread.hyps(1) completes_cont_unread.prems
  have "Step ms e (thenI A B) = (?e1, Some (thenI n B), None)"
    by (simp add: Step_feed)
  then have st: "\<forall>j. Run (Suc j) ms e (thenI A B) = Run j ms ?e1 (thenI n B)"
    by (simp add: Run_Suc_cont del: Run.simps)
  have "feed ?e1 = t # ts" by (simp add: feed_def)
  from completes_cont_unread.IH [OF this] obtain k e' where
    "feed e' = rest" "serr (inS e') = serr (inS e)"
    "\<forall>j. Run (k + j) ms ?e1 (thenI n B) = Run j ms e' B"
    by auto
  with st have "\<forall>j. Run (Suc k + j) ms e (thenI A B) = Run j ms e' B" by simp
  with \<open>feed e' = rest\<close> \<open>serr (inS e') = serr (inS e)\<close> show ?case by blast
qed

lemma Then_breaks:
  assumes "breaks ms A ts u rest err" and "feed e = ts"
  shows "\<exists>k. \<forall>j. Run (k + j) ms e (thenI A B) =
           Some (\<lparr>inS = \<lparr>toks = rest, serr = serr (inS e), bytes = u\<rparr>, scan = False\<rparr>,
                 Some (TokenErr u err))"
  using assms
proof (induction arbitrary: e rule: breaks.induct)
  case (breaks_now A t nx rd err ts)
  let ?e' = "\<lparr>inS = \<lparr>toks = ts, serr = serr (inS e), bytes = t\<rparr>, scan = False\<rparr>"
  from breaks_now have "Step ms e (thenI A B) = (?e', None, Some (TokenErr t err))"
    by (simp add: Step_feed Then_Next_error del: Next.simps)
  then have "\<forall>j. Run (Suc 0 + j) ms e (thenI A B) = Some (?e', Some (TokenErr t err))"
    by (simp add: Run_Suc_err del: Run.simps)
  then show ?case by blast
next
  case (breaks_cont_read A t n ts u rest err)
  let ?e1 = "\<lparr>inS = \<lparr>toks = ts, serr = serr (inS e), bytes = t\<rparr>, scan = True\<rparr>"
  from breaks_cont_read.hyps(1) breaks_cont_read.prems
  have "Step ms e (thenI A B) = (?e1, Some (thenI n B), None)"
    by (simp add: Step_feed)
  then have st: "\<forall>j. Run (Suc j) ms e (thenI A B) = Run j ms ?e1 (thenI n B)"
    by (simp add: Run_Suc_cont del: Run.simps)
  have "feed ?e1 = ts" by (simp add: feed_def)
  from breaks_cont_read.IH [OF this] obtain k where
    "\<forall>j. Run (k + j) ms ?e1 (thenI n B) =
       Some (\<lparr>inS = \<lparr>toks = rest, serr = serr (inS e), bytes = u\<rparr>, scan = False\<rparr>,
             Some (TokenErr u err))"
    by auto
  with st have "\<forall>j. Run (Suc k + j) ms e (thenI A B) =
       Some (\<lparr>inS = \<lparr>toks = rest, serr = serr (inS e), bytes = u\<rparr>, scan = False\<rparr>,
             Some (TokenErr u err))" by simp
  then show ?case by blast
next
  case (breaks_cont_unread A t n ts u rest err)
  let ?e1 = "\<lparr>inS = \<lparr>toks = ts, serr = serr (inS e), bytes = t\<rparr>, scan = False\<rparr>"
  from breaks_cont_unread.hyps(1) breaks_cont_unread.prems
  have "Step ms e (thenI A B) = (?e1, Some (thenI n B), None)"
    by (simp add: Step_feed)
  then have st: "\<forall>j. Run (Suc j) ms e (thenI A B) = Run j ms ?e1 (thenI n B)"
    by (simp add: Run_Suc_cont del: Run.simps)
  have "feed ?e1 = t # ts" by (simp add: feed_def)
  from breaks_cont_unread.IH [OF this] obtain k where
    "\<forall>j. Run (k + j) ms ?e1 (thenI n B) =
       Some (\<lparr>inS = \<lparr>toks = rest, serr = serr (inS e), bytes = u\<rparr>, scan = False\<rparr>,
             Some (TokenErr u err))"
    by auto
  with st have "\<forall>j. Run (Suc k + j) ms e (thenI A B) =
       Some (\<lparr>inS = \<lparr>toks = rest, serr = serr (inS e), bytes = u\<rparr>, scan = False\<rparr>,
             Some (TokenErr u err))" by simp
  then show ?case by blast
qed

lemma Then_starves:
  assumes "starves ms A ts m" and "feed e = ts"
  shows "\<exists>k. \<forall>j. Run (k + j) ms e (thenI A B) =
           Some (\<lparr>inS = \<lparr>toks = [], serr = serr (inS e), bytes = []\<rparr>, scan = True\<rparr>,
                 (case serr (inS e) of None \<Rightarrow> Final ms (thenI m B) | Some x \<Rightarrow> Some x))"
  using assms
proof (induction arbitrary: e rule: starves.induct)
  case (starves_now A)
  let ?e' = "\<lparr>inS = \<lparr>toks = [], serr = serr (inS e), bytes = []\<rparr>, scan = True\<rparr>"
  let ?r = "case serr (inS e) of None \<Rightarrow> Final ms (thenI A B) | Some x \<Rightarrow> Some x"
  from starves_now have "Step ms e (thenI A B) = (?e', None, ?r)"
    by (simp add: Step_feed_end)
  then have "\<forall>j. Run (Suc 0 + j) ms e (thenI A B) = Some (?e', ?r)"
    by (simp add: Run_Suc_done del: Run.simps)
  then show ?case by blast
next
  case (starves_cont_read A t n ts m)
  let ?e1 = "\<lparr>inS = \<lparr>toks = ts, serr = serr (inS e), bytes = t\<rparr>, scan = True\<rparr>"
  from starves_cont_read.hyps(1) starves_cont_read.prems
  have "Step ms e (thenI A B) = (?e1, Some (thenI n B), None)"
    by (simp add: Step_feed)
  then have st: "\<forall>j. Run (Suc j) ms e (thenI A B) = Run j ms ?e1 (thenI n B)"
    by (simp add: Run_Suc_cont del: Run.simps)
  have "feed ?e1 = ts" by (simp add: feed_def)
  from starves_cont_read.IH [OF this, simplified] st show ?case
    by (metis add_Suc)
next
  case (starves_cont_unread A t n ts m)
  let ?e1 = "\<lparr>inS = \<lparr>toks = ts, serr = serr (inS e), bytes = t\<rparr>, scan = False\<rparr>"
  from starves_cont_unread.hyps(1) starves_cont_unread.prems
  have "Step ms e (thenI A B) = (?e1, Some (thenI n B), None)"
    by (simp add: Step_feed)
  then have st: "\<forall>j. Run (Suc j) ms e (thenI A B) = Run j ms ?e1 (thenI n B)"
    by (simp add: Run_Suc_cont del: Run.simps)
  have "feed ?e1 = t # ts" by (simp add: feed_def)
  from starves_cont_unread.IH [OF this, simplified] st show ?case
    by (metis add_Suc)
qed

text \<open>
  The run of \<open>starI A\<close>: each run of \<open>A\<close> that completes brings back the Star on
  what is left.
\<close>

lemma Star_begin:
  assumes "feed e = t # ts" and "Next ms A t = (Some n, rd, None)"
  shows "\<exists>e1. feed e1 = (if rd then ts else t # ts) \<and> serr (inS e1) = serr (inS e)
           \<and> (\<forall>j. Run (Suc j) ms e (starI A) = Run j ms e1 (thenI n (starI A)))"
proof -
  let ?e1 = "\<lparr>inS = \<lparr>toks = ts, serr = serr (inS e), bytes = t\<rparr>, scan = rd\<rparr>"
  from assms have "Step ms e (starI A) = (?e1, Some (thenI n (starI A)), None)"
    by (simp add: Step_feed)
  then have "\<forall>j. Run (Suc j) ms e (starI A) = Run j ms ?e1 (thenI n (starI A))"
    by (simp add: Run_Suc_cont del: Run.simps)
  moreover have "feed ?e1 = (if rd then ts else t # ts)" "serr (inS ?e1) = serr (inS e)"
    by (simp_all add: feed_def)
  ultimately show ?thesis by blast
qed

lemma Star_completes:
  assumes "completes ms A ts rest" and "feed e = ts"
  shows "\<exists>k e'. feed e' = rest \<and> serr (inS e') = serr (inS e)
           \<and> (\<forall>j. Run (k + j) ms e (starI A) = Run j ms e' (starI A))"
  using assms(1)
proof cases
  case (completes_read t)
  let ?e' = "\<lparr>inS = \<lparr>toks = rest, serr = serr (inS e), bytes = t\<rparr>, scan = True\<rparr>"
  from completes_read assms(2) have "Step ms e (starI A) = (?e', Some (starI A), None)"
    by (simp add: Step_feed)
  then have "\<forall>j. Run (Suc 0 + j) ms e (starI A) = Run j ms ?e' (starI A)"
    by (simp add: Run_Suc_cont del: Run.simps)
  moreover have "feed ?e' = rest" "serr (inS ?e') = serr (inS e)" by (simp_all add: feed_def)
  ultimately show ?thesis by blast
next
  case (completes_unread t ts')
  let ?e' = "\<lparr>inS = \<lparr>toks = ts', serr = serr (inS e), bytes = t\<rparr>, scan = False\<rparr>"
  from completes_unread assms(2) have "Step ms e (starI A) = (?e', Some (starI A), None)"
    by (simp add: Step_feed)
  then have "\<forall>j. Run (Suc 0 + j) ms e (starI A) = Run j ms ?e' (starI A)"
    by (simp add: Run_Suc_cont del: Run.simps)
  moreover have "feed ?e' = rest" "serr (inS ?e') = serr (inS e)"
    using completes_unread by (simp_all add: feed_def)
  ultimately show ?thesis by blast
next
  case (completes_cont_read t n ts')
  with assms(2) have "feed e = t # ts'" by simp
  from Star_begin [OF this completes_cont_read(2)] obtain e1 where
    e1: "feed e1 = ts'" "serr (inS e1) = serr (inS e)"
    "\<forall>j. Run (Suc j) ms e (starI A) = Run j ms e1 (thenI n (starI A))"
    by auto
  from Then_completes [OF completes_cont_read(3) e1(1), of "starI A"] obtain k e' where
    "feed e' = rest" "serr (inS e') = serr (inS e1)"
    "\<forall>j. Run (k + j) ms e1 (thenI n (starI A)) = Run j ms e' (starI A)"
    by blast
  with e1 have "feed e' = rest \<and> serr (inS e') = serr (inS e)
      \<and> (\<forall>j. Run (Suc k + j) ms e (starI A) = Run j ms e' (starI A))"
    by simp
  then show ?thesis by blast
next
  case (completes_cont_unread t n ts')
  with assms(2) have "feed e = t # ts'" by simp
  from Star_begin [OF this completes_cont_unread(2)] obtain e1 where
    e1: "feed e1 = t # ts'" "serr (inS e1) = serr (inS e)"
    "\<forall>j. Run (Suc j) ms e (starI A) = Run j ms e1 (thenI n (starI A))"
    by auto
  from Then_completes [OF completes_cont_unread(3) e1(1), of "starI A"] obtain k e' where
    "feed e' = rest" "serr (inS e') = serr (inS e1)"
    "\<forall>j. Run (k + j) ms e1 (thenI n (starI A)) = Run j ms e' (starI A)"
    by blast
  with e1 have "feed e' = rest \<and> serr (inS e') = serr (inS e)
      \<and> (\<forall>j. Run (Suc k + j) ms e (starI A) = Run j ms e' (starI A))"
    by simp
  then show ?thesis by blast
qed

lemma Star_reps:
  assumes "reps ms A ts rest" and "feed e = ts"
  shows "\<exists>k e'. feed e' = rest \<and> serr (inS e') = serr (inS e)
           \<and> (\<forall>j. Run (k + j) ms e (starI A) = Run j ms e' (starI A))"
  using assms
proof (induction arbitrary: e rule: reps.induct)
  case (reps_none ts)
  then have "feed e = ts \<and> serr (inS e) = serr (inS e)
      \<and> (\<forall>j. Run (0 + j) ms e (starI A) = Run j ms e (starI A))"
    by simp
  then show ?case by blast
next
  case (reps_more ts mid rest)
  from Star_completes [OF reps_more.hyps(1) reps_more.prems] obtain k1 e1 where
    e1: "feed e1 = mid" "serr (inS e1) = serr (inS e)"
    "\<forall>j. Run (k1 + j) ms e (starI A) = Run j ms e1 (starI A)"
    by blast
  from reps_more.IH [OF e1(1)] obtain k2 e2 where
    e2: "feed e2 = rest" "serr (inS e2) = serr (inS e1)"
    "\<forall>j. Run (k2 + j) ms e1 (starI A) = Run j ms e2 (starI A)"
    by blast
  have "Run ((k1 + k2) + j) ms e (starI A) = Run j ms e2 (starI A)" for j
    using e1(3) e2(3) by (simp add: add.assoc)
  with e1(2) e2(1,2) show ?case by metis
qed

lemma Star_stops:
  assumes "stops_at ms A ts" and "feed e = ts"
  shows "Run (Suc j) ms e (starI A) =
           Some (case ts of
                   [] \<Rightarrow> (\<lparr>inS = \<lparr>toks = [], serr = serr (inS e), bytes = []\<rparr>, scan = True\<rparr>,
                          serr (inS e))
                 | t # rest \<Rightarrow>
                     (\<lparr>inS = \<lparr>toks = rest, serr = serr (inS e), bytes = t\<rparr>, scan = False\<rparr>,
                      None))"
proof (cases ts)
  case Nil
  with assms(2) have "Step ms e (starI A) =
      (\<lparr>inS = \<lparr>toks = [], serr = serr (inS e), bytes = []\<rparr>, scan = True\<rparr>, None, serr (inS e))"
    by (cases "serr (inS e)") (simp_all add: Step_feed_end)
  then have "Run (Suc j) ms e (starI A) =
      Some (\<lparr>inS = \<lparr>toks = [], serr = serr (inS e), bytes = []\<rparr>, scan = True\<rparr>, serr (inS e))"
    by (rule Run_Suc_done)
  with Nil show ?thesis by simp
next
  case (Cons t rest)
  with assms(1) have "snd (snd (Next ms A t)) \<noteq> None" by (simp add: stops_at_def)
  then have "Next ms (starI A) t = (None, False, None)"
    by (auto split: prod.splits option.splits)
  with Cons assms(2) have "Step ms e (starI A) =
      (\<lparr>inS = \<lparr>toks = rest, serr = serr (inS e), bytes = t\<rparr>, scan = False\<rparr>, None, None)"
    by (simp add: Step_feed del: Next.simps)
  then have "Run (Suc j) ms e (starI A) =
      Some (\<lparr>inS = \<lparr>toks = rest, serr = serr (inS e), bytes = t\<rparr>, scan = False\<rparr>, None)"
    by (rule Run_Suc_done)
  with Cons show ?thesis by simp
qed


text \<open>The three ways a run of a Star returns.\<close>

lemma Star_run_stops:
  assumes "reps ms A (feed e) rest" and "stops_at ms A rest"
  shows "\<exists>k. \<forall>j. Run (k + j) ms e (starI A) =
           Some (case rest of
                   [] \<Rightarrow> (\<lparr>inS = \<lparr>toks = [], serr = serr (inS e), bytes = []\<rparr>, scan = True\<rparr>,
                          serr (inS e))
                 | t # rest' \<Rightarrow>
                     (\<lparr>inS = \<lparr>toks = rest', serr = serr (inS e), bytes = t\<rparr>, scan = False\<rparr>,
                      None))"
proof -
  from Star_reps [OF assms(1) refl] obtain k e' where
    e': "feed e' = rest" "serr (inS e') = serr (inS e)"
    "\<forall>j. Run (k + j) ms e (starI A) = Run j ms e' (starI A)"
    by blast
  have "Run (Suc k + j) ms e (starI A) = Run (Suc j) ms e' (starI A)" for j
    using e'(3) by (metis add_Suc_shift)
  with Star_stops [OF assms(2) e'(1)] e'(2) show ?thesis by metis
qed

lemma Star_run_breaks:
  assumes "reps ms A (feed e) mid" and "\<not> stops_at ms A mid"
    and "breaks ms A mid u rest err"
  shows "\<exists>k. \<forall>j. Run (k + j) ms e (starI A) =
           Some (\<lparr>inS = \<lparr>toks = rest, serr = serr (inS e), bytes = u\<rparr>, scan = False\<rparr>,
                 Some (TokenErr u err))"
proof -
  from Star_reps [OF assms(1) refl] obtain k e' where
    e': "feed e' = mid" "serr (inS e') = serr (inS e)"
    "\<forall>j. Run (k + j) ms e (starI A) = Run j ms e' (starI A)"
    by blast
  from assms(2) obtain t ts where mid: "mid = t # ts" and ok: "snd (snd (Next ms A t)) = None"
    by (cases mid) (auto simp: stops_at_def)
  from assms(3) mid ok obtain n rd where
    n: "Next ms A t = (Some n, rd, None)" "breaks ms n (if rd then ts else t # ts) u rest err"
    by cases auto
  from Star_begin [OF _ n(1), of e' ts] e'(1) mid obtain e1 where
    e1: "feed e1 = (if rd then ts else t # ts)" "serr (inS e1) = serr (inS e')"
    "\<forall>j. Run (Suc j) ms e' (starI A) = Run j ms e1 (thenI n (starI A))"
    by auto
  from Then_breaks [OF n(2) e1(1), of "starI A"] obtain k2 where
    k2: "\<forall>j. Run (k2 + j) ms e1 (thenI n (starI A)) =
       Some (\<lparr>inS = \<lparr>toks = rest, serr = serr (inS e1), bytes = u\<rparr>, scan = False\<rparr>,
             Some (TokenErr u err))"
    by blast
  have "Run ((k + Suc k2) + j) ms e (starI A) =
       Some (\<lparr>inS = \<lparr>toks = rest, serr = serr (inS e), bytes = u\<rparr>, scan = False\<rparr>,
             Some (TokenErr u err))" for j
  proof -
    have "Run ((k + Suc k2) + j) ms e (starI A) = Run (Suc (k2 + j)) ms e' (starI A)"
      using e'(3) [rule_format, of "Suc (k2 + j)"] by (simp add: add.assoc del: Run.simps)
    also have "\<dots> = Run (k2 + j) ms e1 (thenI n (starI A))" using e1(3) by blast
    finally show ?thesis using k2 e1(2) e'(2) by (simp del: Run.simps)
  qed
  then show ?thesis by blast
qed

lemma Star_run_starves:
  assumes "reps ms A (feed e) mid" and "\<not> stops_at ms A mid"
    and "starves ms A mid m"
  shows "\<exists>k. \<forall>j. Run (k + j) ms e (starI A) =
           Some (\<lparr>inS = \<lparr>toks = [], serr = serr (inS e), bytes = []\<rparr>, scan = True\<rparr>,
                 (case serr (inS e) of None \<Rightarrow> Final ms m | Some x \<Rightarrow> Some x))"
proof -
  from Star_reps [OF assms(1) refl] obtain k e' where
    e': "feed e' = mid" "serr (inS e') = serr (inS e)"
    "\<forall>j. Run (k + j) ms e (starI A) = Run j ms e' (starI A)"
    by blast
  from assms(2) obtain t ts where mid: "mid = t # ts" and ok: "snd (snd (Next ms A t)) = None"
    by (cases mid) (auto simp: stops_at_def)
  from assms(3) mid obtain n rd where
    n: "Next ms A t = (Some n, rd, None)" "starves ms n (if rd then ts else t # ts) m"
    by cases auto
  from Star_begin [OF _ n(1), of e' ts] e'(1) mid obtain e1 where
    e1: "feed e1 = (if rd then ts else t # ts)" "serr (inS e1) = serr (inS e')"
    "\<forall>j. Run (Suc j) ms e' (starI A) = Run j ms e1 (thenI n (starI A))"
    by auto
  from Then_starves [OF n(2) e1(1), of "starI A"] obtain k2 where
    k2: "\<forall>j. Run (k2 + j) ms e1 (thenI n (starI A)) =
       Some (\<lparr>inS = \<lparr>toks = [], serr = serr (inS e1), bytes = []\<rparr>, scan = True\<rparr>,
             (case serr (inS e1) of None \<Rightarrow> Final ms (thenI m (starI A)) | Some x \<Rightarrow> Some x))"
    by blast
  have fin: "Final ms (thenI m (starI A)) = Final ms m" by (cases "Final ms m") simp_all
  have "Run ((k + Suc k2) + j) ms e (starI A) =
       Some (\<lparr>inS = \<lparr>toks = [], serr = serr (inS e), bytes = []\<rparr>, scan = True\<rparr>,
             (case serr (inS e) of None \<Rightarrow> Final ms m | Some x \<Rightarrow> Some x))" for j
  proof -
    have "Run ((k + Suc k2) + j) ms e (starI A) = Run (Suc (k2 + j)) ms e' (starI A)"
      using e'(3) [rule_format, of "Suc (k2 + j)"] by (simp add: add.assoc del: Run.simps)
    also have "\<dots> = Run (k2 + j) ms e1 (thenI n (starI A))" using e1(3) by blast
    finally have "Run ((k + Suc k2) + j) ms e (starI A) =
       Some (\<lparr>inS = \<lparr>toks = [], serr = serr (inS e1), bytes = []\<rparr>, scan = True\<rparr>,
             (case serr (inS e1) of None \<Rightarrow> Final ms (thenI m (starI A)) | Some x \<Rightarrow> Some x))"
      using k2 by (simp del: Run.simps Final.simps)
    then show ?thesis
      unfolding fin using e1(2) e'(2) by (simp del: Run.simps Final.simps)
  qed
  then show ?thesis by blast
qed

text \<open>A run of \<open>Seq(Match(x), Match(y))\<close> completes at the token after \<open>x\<close>, \<open>y\<close>.\<close>

lemma completes_Match_Match:
  "completes ms (seqI [matchI x, matchI y]) (x # y # t # ts) (t # ts)"
proof -
  have n1: "Next ms (seqI [matchI x, matchI y]) x = (Some (seqI [matchI y]), True, None)"
    by simp
  have n2: "Next ms (seqI [matchI y]) y = (Some (seqI []), True, None)" by simp
  have n3: "Next ms (seqI []) t = (None, False, None)" by simp
  show ?thesis
    by (rule completes_cont_read [OF n1 completes_cont_read [OF n2 completes_unread [OF n3]]])
qed

text \<open>
  The continuations of \<open>Seq(Match(a), SkipAny(b))\<close>, an inner Iteratee of several
  tokens none of whose continuations returns an error.
\<close>

lemma conts_Match_SkipAny:
  assumes "conts ms (seqI [matchI x, skipAnyI y]) n"
  shows "n = seqI [skipAnyI y] \<or> n = thenI (skipAnyI y) (seqI []) \<or> n = seqI []"
  using assms by (induction rule: conts.induct) (auto split: if_splits)

lemma conts_Match_SkipAny_ok:
  "\<forall>n. conts ms (seqI [matchI x, skipAnyI y]) n \<longrightarrow>
       Final ms n = None \<and> (\<forall>t. snd (snd (Next ms n t)) = None)"
proof (intro allI impI)
  fix n
  assume "conts ms (seqI [matchI x, skipAnyI y]) n"
  then have "n = seqI [skipAnyI y] \<or> n = thenI (skipAnyI y) (seqI []) \<or> n = seqI []"
    by (rule conts_Match_SkipAny)
  then show "Final ms n = None \<and> (\<forall>t. snd (snd (Next ms n t)) = None)"
    by auto
qed

text \<open>
  C1, as the code has it. The transition of \<open>Star(inner)\<close> itself never returns an
  error. For every \<open>inner\<close> and every state of the enumerator, with the tokens to
  come made of any number of runs of \<open>inner\<close> that complete and of what is left
  after them:
  \<^item> when what is left is empty or begins with a token that the transition of
    \<open>inner\<close> rejects, the run of \<open>Star(inner)\<close> returns, from some number of
    calls of \<^verbatim>\<open>Step\<close> on, with no error of an Iteratee (with what the scanner ends
    with, at the end of the tokens): it has read the runs of \<open>inner\<close>, the longest
    prefix that repeated runs of \<open>inner\<close> accept, and the rejected token is the
    current, unread token;
  \<^item> when \<open>inner\<close> accepts the first token of what is left and breaks at a later
    token \<open>u\<close>, the run returns that error wrapped with \<open>u\<close>, the tokens before
    \<open>u\<close> read;
  \<^item> when \<open>inner\<close> accepts the first token of what is left and the tokens end
    before it completes, the run returns the scanner's error or \<^verbatim>\<open>Final\<close> of the
    state \<open>inner\<close> is in.

  Moreover, when no continuation of \<open>inner\<close> returns an error, from its transition or
  from \<^verbatim>\<open>Final\<close>, a run of \<open>Star(inner)\<close> that returns, returns no error but the
  one the scanner ends with; and for an \<open>inner\<close> of one token (every transition that
  returns no error finishes and reads the token, as \<open>Match(L)\<close>) the run returns
  after at most one call of \<^verbatim>\<open>Step\<close> for each token and one more, the tokens that
  \<open>inner\<close> accepts read up to the first one it rejects.
\<close>

theorem Run_Star:
  "snd (snd (Next ms (starI B) token)) = None
   \<and> (reps ms A (feed e) rest \<and> stops_at ms A rest
        \<longrightarrow> (\<exists>k. \<forall>j. Run (k + j) ms e (starI A) =
               Some (case rest of
                       [] \<Rightarrow> (\<lparr>inS = \<lparr>toks = [], serr = serr (inS e), bytes = []\<rparr>,
                               scan = True\<rparr>,
                              serr (inS e))
                     | t # rest' \<Rightarrow>
                         (\<lparr>inS = \<lparr>toks = rest', serr = serr (inS e), bytes = t\<rparr>,
                            scan = False\<rparr>,
                          None))))
   \<and> (reps ms A (feed e) mid \<and> \<not> stops_at ms A mid \<and> breaks ms A mid u after err
        \<longrightarrow> (\<exists>k. \<forall>j. Run (k + j) ms e (starI A) =
               Some (\<lparr>inS = \<lparr>toks = after, serr = serr (inS e), bytes = u\<rparr>, scan = False\<rparr>,
                     Some (TokenErr u err))))
   \<and> (reps ms A (feed e) mid \<and> \<not> stops_at ms A mid \<and> starves ms A mid m
        \<longrightarrow> (\<exists>k. \<forall>j. Run (k + j) ms e (starI A) =
               Some (\<lparr>inS = \<lparr>toks = [], serr = serr (inS e), bytes = []\<rparr>, scan = True\<rparr>,
                     (case serr (inS e) of None \<Rightarrow> Final ms m | Some x \<Rightarrow> Some x))))
   \<and> ((\<forall>n. conts ms A n \<longrightarrow> Final ms n = None \<and> (\<forall>t. snd (snd (Next ms n t)) = None))
        \<longrightarrow> (\<forall>k e e' err. Run k ms e (starI A) = Some (e', err)
                \<longrightarrow> err = None \<or> err = serr (inS e)))
   \<and> ((\<forall>t. snd (snd (Next ms M t)) = None \<longrightarrow> Next ms M t = (None, True, None))
          \<and> length ts < n
        \<longrightarrow> Run n ms (NewScanEnumerator (NewScanner ts failure)) (starI M) =
             Some (case dropWhile (\<lambda>t. snd (snd (Next ms M t)) = None) ts of
                     [] \<Rightarrow> (\<lparr>inS = \<lparr>toks = [], serr = failure, bytes = []\<rparr>, scan = True\<rparr>,
                            failure)
                   | t # rest \<Rightarrow>
                       (\<lparr>inS = \<lparr>toks = rest, serr = failure, bytes = t\<rparr>, scan = False\<rparr>,
                        None)))"
proof (intro conjI impI)
  show "snd (snd (Next ms (starI B) token)) = None" by (rule Star_Next_no_error)
next
  assume "reps ms A (feed e) rest \<and> stops_at ms A rest"
  then have "reps ms A (feed e) rest" and "stops_at ms A rest" by blast+
  then show "\<exists>k. \<forall>j. Run (k + j) ms e (starI A) =
               Some (case rest of
                       [] \<Rightarrow> (\<lparr>inS = \<lparr>toks = [], serr = serr (inS e), bytes = []\<rparr>,
                               scan = True\<rparr>,
                              serr (inS e))
                     | t # rest' \<Rightarrow>
                         (\<lparr>inS = \<lparr>toks = rest', serr = serr (inS e), bytes = t\<rparr>,
                            scan = False\<rparr>,
                          None))"
    by (rule Star_run_stops)
next
  assume "reps ms A (feed e) mid \<and> \<not> stops_at ms A mid \<and> breaks ms A mid u after err"
  then have "reps ms A (feed e) mid" and "\<not> stops_at ms A mid"
    and "breaks ms A mid u after err" by blast+
  then show "\<exists>k. \<forall>j. Run (k + j) ms e (starI A) =
               Some (\<lparr>inS = \<lparr>toks = after, serr = serr (inS e), bytes = u\<rparr>, scan = False\<rparr>,
                     Some (TokenErr u err))"
    by (rule Star_run_breaks)
next
  assume "reps ms A (feed e) mid \<and> \<not> stops_at ms A mid \<and> starves ms A mid m"
  then have "reps ms A (feed e) mid" and "\<not> stops_at ms A mid"
    and "starves ms A mid m" by blast+
  then show "\<exists>k. \<forall>j. Run (k + j) ms e (starI A) =
               Some (\<lparr>inS = \<lparr>toks = [], serr = serr (inS e), bytes = []\<rparr>, scan = True\<rparr>,
                     (case serr (inS e) of None \<Rightarrow> Final ms m | Some x \<Rightarrow> Some x))"
    by (rule Star_run_starves)
next
  assume ok: "\<forall>n. conts ms A n \<longrightarrow> Final ms n = None \<and> (\<forall>t. snd (snd (Next ms n t)) = None)"
  have "err = None \<or> err = serr (inS e)" if "Run k ms e (starI A) = Some (e', err)"
    for k e e' err
  proof -
    have "in_Star ms A (starI A)" by (simp add: in_Star_def)
    with ok show ?thesis using that by (rule Run_in_Star)
  qed
  then show "\<forall>k e e' err. Run k ms e (starI A) = Some (e', err)
      \<longrightarrow> err = None \<or> err = serr (inS e)"
    by blast
next
  assume h: "(\<forall>t. snd (snd (Next ms M t)) = None \<longrightarrow> Next ms M t = (None, True, None))
      \<and> length ts < n"
  then have one: "\<forall>t. snd (snd (Next ms M t)) = None \<longrightarrow> Next ms M t = (None, True, None)"
    and fuel: "length ts < n" by blast+
  from Run_Star_one_token [OF one fuel, of failure "[]"]
  show "Run n ms (NewScanEnumerator (NewScanner ts failure)) (starI M) =
             Some (case dropWhile (\<lambda>t. snd (snd (Next ms M t)) = None) ts of
                     [] \<Rightarrow> (\<lparr>inS = \<lparr>toks = [], serr = failure, bytes = []\<rparr>, scan = True\<rparr>,
                            failure)
                   | t # rest \<Rightarrow>
                       (\<lparr>inS = \<lparr>toks = rest, serr = failure, bytes = t\<rparr>, scan = False\<rparr>,
                        None))"
    by (simp add: NewScanEnumerator_def NewScanner_def)
qed

theorem Run_Star_witness:
  "(\<exists>k. \<forall>j. Run (k + j) no_user
            (NewScanEnumerator (NewScanner [''a'', ''b'', ''a'', ''b'', ''x'', ''y''] None))
            (starI (seqI [matchI ''a'', matchI ''b''])) =
          Some (\<lparr>inS = \<lparr>toks = [''y''], serr = None, bytes = ''x''\<rparr>, scan = False\<rparr>, None))
   \<and> (\<exists>k. \<forall>j. Run (k + j) no_user
            (NewScanEnumerator (NewScanner [''a'', ''b'', ''a'', ''c''] None))
            (starI (seqI [matchI ''a'', matchI ''b''])) =
          Some (\<lparr>inS = \<lparr>toks = [], serr = None, bytes = ''c''\<rparr>, scan = False\<rparr>,
                Some (TokenErr ''c'' (ErrExpectQ ''b''))))
   \<and> (\<exists>k. \<forall>j. Run (k + j) no_user
            (NewScanEnumerator (NewScanner [''a'', ''b'', ''a''] None))
            (starI (seqI [matchI ''a'', matchI ''b''])) =
          Some (\<lparr>inS = \<lparr>toks = [], serr = None, bytes = []\<rparr>, scan = True\<rparr>,
                Some (ErrExpectQ ''b'')))
   \<and> (\<forall>k. map_option snd
          (Run k no_user (NewScanEnumerator (NewScanner [''a'', ''b'', ''a'', ''c''] None))
             (starI (seqI [matchI ''a'', skipAnyI ''b''])))
        \<in> {None, Some None})
   \<and> Run 5 no_user (NewScanEnumerator (NewScanner [''a'', ''a'', ''b'', ''a''] None))
       (starI (matchI ''a'')) =
     Some (\<lparr>inS = \<lparr>toks = [''a''], serr = None, bytes = ''b''\<rparr>, scan = False\<rparr>, None)
   \<and> Run 3 no_user (NewScanEnumerator (NewScanner [''a'', ''a''] None)) (starI (matchI ''a'')) =
     Some (\<lparr>inS = \<lparr>toks = [], serr = None, bytes = []\<rparr>, scan = True\<rparr>, None)"
proof -
  let ?AB = "seqI [matchI ''a'', matchI ''b''] :: unit Iteratee"
  let ?e1 = "NewScanEnumerator (NewScanner [''a'', ''b'', ''a'', ''b'', ''x'', ''y''] None)"
  let ?e2 = "NewScanEnumerator (NewScanner [''a'', ''b'', ''a'', ''c''] None)"
  let ?e3 = "NewScanEnumerator (NewScanner [''a'', ''b'', ''a''] None)"
  have feed: "feed (NewScanEnumerator (NewScanner ts None)) = ts"
    and serr: "serr (inS (NewScanEnumerator (NewScanner ts None))) = None" for ts
    by (simp_all add: feed_def NewScanEnumerator_def NewScanner_def)
  have n1: "Next no_user ?AB ''a'' = (Some (seqI [matchI ''b'']), True, None)" by simp

  have ns: "\<not> stops_at no_user ?AB (''a'' # ts)" for ts
    by (simp add: stops_at_def)

  have "reps no_user ?AB [''a'', ''b'', ''a'', ''b'', ''x'', ''y''] [''x'', ''y'']"
    by (rule reps_more [OF completes_Match_Match
          reps_more [OF completes_Match_Match reps_none]])
  moreover have "stops_at no_user ?AB [''x'', ''y'']" by (simp add: stops_at_def)
  ultimately have x1: "\<exists>k. \<forall>j. Run (k + j) no_user ?e1 (starI ?AB) =
      Some (\<lparr>inS = \<lparr>toks = [''y''], serr = None, bytes = ''x''\<rparr>, scan = False\<rparr>, None)"
    using Run_Star [where ms = no_user and A = ?AB and e = ?e1 and rest = "[''x'', ''y'']"]
    by (simp add: feed serr del: Run.simps)

  have "reps no_user ?AB [''a'', ''b'', ''a'', ''c''] [''a'', ''c'']"
    by (rule reps_more [OF completes_Match_Match reps_none])
  moreover have "breaks no_user ?AB [''a'', ''c''] ''c'' [] (ErrExpectQ ''b'')"
  proof -
    have "Next no_user (seqI [matchI ''b'']) ''c'' = (None, False, Some (ErrExpectQ ''b''))"
      by simp
    then have "breaks no_user (seqI [matchI ''b'']) [''c''] ''c'' [] (ErrExpectQ ''b'')"
      by (rule breaks_now)
    with n1 show ?thesis by (rule breaks_cont_read)
  qed
  ultimately have x2: "\<exists>k. \<forall>j. Run (k + j) no_user ?e2 (starI ?AB) =
      Some (\<lparr>inS = \<lparr>toks = [], serr = None, bytes = ''c''\<rparr>, scan = False\<rparr>,
            Some (TokenErr ''c'' (ErrExpectQ ''b'')))"
    using ns Run_Star [where ms = no_user and A = ?AB and e = ?e2 and mid = "[''a'', ''c'']"
        and u = "''c''" and after = "[]" and err = "ErrExpectQ ''b''"]
    by (simp add: feed serr del: Run.simps)

  have "reps no_user ?AB [''a'', ''b'', ''a''] [''a'']"
    by (rule reps_more [OF completes_Match_Match reps_none])
  moreover have "starves no_user ?AB [''a''] (seqI [matchI ''b''])"
    using n1 starves_now by (rule starves_cont_read)
  ultimately have x3: "\<exists>k. \<forall>j. Run (k + j) no_user ?e3 (starI ?AB) =
      Some (\<lparr>inS = \<lparr>toks = [], serr = None, bytes = []\<rparr>, scan = True\<rparr>,
            Some (ErrExpectQ ''b''))"
    using ns Run_Star [where ms = no_user and A = ?AB and e = ?e3 and mid = "[''a'']"
        and m = "seqI [matchI ''b'']"]
    by (simp add: feed serr del: Run.simps)

  let ?A = "seqI [matchI ''a'', skipAnyI ''b''] :: unit Iteratee"
  have ok: "\<forall>n. conts no_user ?A n \<longrightarrow>
      Final no_user n = None \<and> (\<forall>t. snd (snd (Next no_user n t)) = None)"
    by (rule conts_Match_SkipAny_ok)
  have "map_option snd (Run k no_user ?e2 (starI ?A)) \<in> {None, Some None}" for k
  proof (cases "Run k no_user ?e2 (starI ?A)")
    case None
    then show ?thesis by simp
  next
    case (Some r)
    obtain e' err where r: "r = (e', err)" by (cases r) auto
    with Some ok Run_Star [where ms = no_user and A = ?A]
    have "err = None \<or> err = serr (inS ?e2)" by blast
    then have "err = None" by (simp add: serr)
    with Some r show ?thesis by simp
  qed
  then have x4: "\<forall>k. map_option snd (Run k no_user ?e2 (starI ?A)) \<in> {None, Some None}"
    by blast

  have one: "\<forall>t. snd (snd (Next no_user (matchI ''a'') t)) = None
               \<longrightarrow> Next no_user (matchI ''a'') t = (None, True, None)"
    by simp
  have "length [''a'', ''a'', ''b'', ''a''] < 5" and "length [''a'', ''a''] < 3"
    by simp_all
  with one have x5: "Run 5 no_user (NewScanEnumerator (NewScanner [''a'', ''a'', ''b'', ''a''] None))
       (starI (matchI ''a'')) =
     Some (\<lparr>inS = \<lparr>toks = [''a''], serr = None, bytes = ''b''\<rparr>, scan = False\<rparr>, None)"
    and x6: "Run 3 no_user (NewScanEnumerator (NewScanner [''a'', ''a''] None))
       (starI (matchI ''a'')) =
     Some (\<lparr>inS = \<lparr>toks = [], serr = None, bytes = []\<rparr>, scan = True\<rparr>, None)"
    using Run_Star [where ms = no_user and M = "matchI ''a''"
        and ts = "[''a'', ''a'', ''b'', ''a'']" and n = 5 and failure = None]
      Run_Star [where ms = no_user and M = "matchI ''a''" and ts = "[''a'', ''a'']"
        and n = 3 and failure = None]
    by (simp_all del: Run.simps)
  from x1 x2 x3 x4 x5 x6 show ?thesis by blast
qed

text \<open>
  The claim as the specification states it fails when the inner Iteratee returns an
  error inside a repetition that has read a token: \<open>Star(Seq(Match(a), Match(b)))\<close>
  on the tokens \<open>a\<close>, \<open>c\<close> is, after \<open>a\<close>, a \<open>thenI\<close> of the rest of the
  \<open>Seq\<close> and the Star, and \<open>thenI\<close> returns the error of its head.
\<close>

theorem Run_Star_counterexample:
  "Run (Suc (Suc 0)) no_user (NewScanEnumerator (NewScanner [''a'', ''c''] None))
       (starI (seqI [matchI ''a'', matchI ''b''])) =
     Some (\<lparr>inS = \<lparr>toks = [], serr = None, bytes = ''c''\<rparr>, scan = False\<rparr>,
           Some (TokenErr ''c'' (ErrExpectQ ''b'')))"
  by (simp add: Step_scan Step_reuse NewScanEnumerator_def NewScanner_def)

section \<open>A Seq inside a Seq\<close>

text \<open>\<^verbatim>\<open>Final\<close> of a \<open>Seq\<close> is the first error among the \<^verbatim>\<open>Final\<close> of its elements.\<close>

lemma Final_seq_append:
  "Final ms (seqI (xs @ ys)) =
     (case Final ms (seqI xs) of Some err \<Rightarrow> Some err | None \<Rightarrow> Final ms (seqI ys))"
  by (induction xs) (auto split: option.splits)

text \<open>Related states agree on \<^verbatim>\<open>Final\<close>, and a transition from related states either
  leaves the token unread and lands the nested state on the flat one, or returns the same
  error, or the same \<open>read\<close> flag with related next states.\<close>

lemma seq_nest_Final: "seq_nest N F \<Longrightarrow> Final ms N = Final ms F"
  by (induction rule: seq_nest.induct) (auto simp: Final_seq_append split: option.splits)

lemma seq_nest_Next:
  assumes "seq_nest N F"
  shows "Next ms N t = (Some F, False, None)
       \<or> (\<exists>err. Next ms N t = (None, False, Some err) \<and> Next ms F t = (None, False, Some err))
       \<or> (\<exists>N' F' rd. Next ms N t = (Some N', rd, None) \<and> Next ms F t = (Some F', rd, None)
             \<and> seq_nest N' F')"
  using assms
proof cases
  case (nest_Seq xs ys)
  show ?thesis
  proof (cases xs)
    case Nil
    with nest_Seq show ?thesis by simp
  next
    case (Cons x xs')
    obtain nx rd er where n: "Next ms x t = (nx, rd, er)" by (cases "Next ms x t") auto
    show ?thesis
      using nest_Seq Cons n by (cases nx; cases er) (auto intro: seq_nest.intros)
  qed
next
  case (nest_Then xs ys)
  show ?thesis
  proof (cases xs)
    case Nil
    with nest_Then show ?thesis by simp
  next
    case (Cons x xs')
    obtain nx rd er where n: "Next ms x t = (nx, rd, er)" by (cases "Next ms x t") auto
    show ?thesis
      using nest_Then Cons n by (cases nx; cases er) (auto intro: seq_nest.intros)
  qed
next
  case (nest_Cont m xs ys)
  obtain nx rd er where n: "Next ms m t = (nx, rd, er)" by (cases "Next ms m t") auto
  show ?thesis
    using nest_Cont n by (cases nx; cases er) (auto intro: seq_nest.intros)
qed


lemma Run_Suc_cong:
  "Step ms e2 it = Step ms e it \<Longrightarrow> Run (Suc k) ms e2 it = Run (Suc k) ms e it"
  by simp

lemma Step_unread:
  assumes "\<forall>it. Step ms e it =
           (case Next ms it (bytes s) of
              (next, read, err) \<Rightarrow>
                (e\<lparr>inS := s, scan := read\<rparr>, next, WrapTokenError (bytes s) err))"
  shows "Step ms (e\<lparr>inS := s, scan := False\<rparr>) it = Step ms e it"
  using assms by (simp add: Step_reuse)

text \<open>Each of the two runs returns what the other returns.\<close>

lemma nested_to_flat:
  assumes "seq_nest N F" and "Run k ms e N = Some r"
  shows "\<exists>k'. Run k' ms e F = Some r"
  using assms
proof (induction k arbitrary: e N F)
  case 0
  then show ?case by simp
next
  case (Suc k)
  show ?case
  proof (cases "scan e \<and> toks (inS e) = []")
    case True
    then have "Step ms e N = Step ms e F"
      using seq_nest_Final [OF Suc.prems(1), of ms] by (simp add: Step_end split: option.splits)
    then have "Run (Suc k) ms e F = Run (Suc k) ms e N" by simp
    with Suc.prems(2) show ?thesis by metis
  next
    case False
    from Step_token [OF False, of ms] obtain s where
      st: "\<forall>it. Step ms e it =
           (case Next ms it (bytes s) of
              (next, read, err) \<Rightarrow>
                (e\<lparr>inS := s, scan := read\<rparr>, next, WrapTokenError (bytes s) err))"
      by blast
    from seq_nest_Next [OF Suc.prems(1), of ms "bytes s"]
    consider (silent) "Next ms N (bytes s) = (Some F, False, None)"
      | (err) err where "Next ms N (bytes s) = (None, False, Some err)"
          "Next ms F (bytes s) = (None, False, Some err)"
      | (cont) N' F' rd where "Next ms N (bytes s) = (Some N', rd, None)"
          "Next ms F (bytes s) = (Some F', rd, None)" "seq_nest N' F'"
      by blast
    then show ?thesis
    proof cases
      case silent
      with st have "Step ms e N = (e\<lparr>inS := s, scan := False\<rparr>, Some F, None)" by simp
      then have "Run (Suc k) ms e N = Run k ms (e\<lparr>inS := s, scan := False\<rparr>) F"
        by (rule Run_Suc_cont)
      with Suc.prems(2) have r: "Run k ms (e\<lparr>inS := s, scan := False\<rparr>) F = Some r" by simp
      then obtain k1 where k: "k = Suc k1" by (cases k) auto
      from Step_unread [OF st, of F] have "Run (Suc k1) ms (e\<lparr>inS := s, scan := False\<rparr>) F
          = Run (Suc k1) ms e F"
        by (rule Run_Suc_cong)
      with r k show ?thesis by metis
    next
      case err
      with st have "Step ms e N = Step ms e F" by simp
      then have "Run (Suc k) ms e F = Run (Suc k) ms e N" by simp
      with Suc.prems(2) show ?thesis by metis
    next
      case cont
      with st have n: "Step ms e N = (e\<lparr>inS := s, scan := rd\<rparr>, Some N', None)"
        and f: "Step ms e F = (e\<lparr>inS := s, scan := rd\<rparr>, Some F', None)"
        by simp_all
      from n Suc.prems(2) have "Run k ms (e\<lparr>inS := s, scan := rd\<rparr>) N' = Some r"
        by (simp add: Run_Suc_cont del: Run.simps)
      from Suc.IH [OF cont(3) this] obtain k' where
        "Run k' ms (e\<lparr>inS := s, scan := rd\<rparr>) F' = Some r" by blast
      with f have "Run (Suc k') ms e F = Some r"
        by (simp add: Run_Suc_cont del: Run.simps)
      then show ?thesis by blast
    qed
  qed
qed

lemma flat_to_nested:
  assumes "seq_nest N F" and "Run k ms e F = Some r"
  shows "\<exists>k'. Run k' ms e N = Some r"
  using assms
proof (induction k arbitrary: e N F)
  case 0
  then show ?case by simp
next
  case (Suc k)
  show ?case
  proof (cases "scan e \<and> toks (inS e) = []")
    case True
    then have "Step ms e N = Step ms e F"
      using seq_nest_Final [OF Suc.prems(1), of ms] by (simp add: Step_end split: option.splits)
    then have "Run (Suc k) ms e N = Run (Suc k) ms e F" by simp
    with Suc.prems(2) show ?thesis by metis
  next
    case False
    from Step_token [OF False, of ms] obtain s where
      st: "\<forall>it. Step ms e it =
           (case Next ms it (bytes s) of
              (next, read, err) \<Rightarrow>
                (e\<lparr>inS := s, scan := read\<rparr>, next, WrapTokenError (bytes s) err))"
      by blast
    from seq_nest_Next [OF Suc.prems(1), of ms "bytes s"]
    consider (silent) "Next ms N (bytes s) = (Some F, False, None)"
      | (err) err where "Next ms N (bytes s) = (None, False, Some err)"
          "Next ms F (bytes s) = (None, False, Some err)"
      | (cont) N' F' rd where "Next ms N (bytes s) = (Some N', rd, None)"
          "Next ms F (bytes s) = (Some F', rd, None)" "seq_nest N' F'"
      by blast
    then show ?thesis
    proof cases
      case silent
      with st have "Step ms e N = (e\<lparr>inS := s, scan := False\<rparr>, Some F, None)" by simp
      then have "Run (Suc (Suc k)) ms e N = Run (Suc k) ms (e\<lparr>inS := s, scan := False\<rparr>) F"
        by (rule Run_Suc_cont)
      also from Step_unread [OF st, of F] have "\<dots> = Run (Suc k) ms e F"
        by (rule Run_Suc_cong)
      finally show ?thesis using Suc.prems(2) by metis
    next
      case err
      with st have "Step ms e N = Step ms e F" by simp
      then have "Run (Suc k) ms e N = Run (Suc k) ms e F" by simp
      with Suc.prems(2) show ?thesis by metis
    next
      case cont
      with st have n: "Step ms e N = (e\<lparr>inS := s, scan := rd\<rparr>, Some N', None)"
        and f: "Step ms e F = (e\<lparr>inS := s, scan := rd\<rparr>, Some F', None)"
        by simp_all
      from f Suc.prems(2) have "Run k ms (e\<lparr>inS := s, scan := rd\<rparr>) F' = Some r"
        by (simp add: Run_Suc_cont del: Run.simps)
      from Suc.IH [OF cont(3) this] obtain k' where
        "Run k' ms (e\<lparr>inS := s, scan := rd\<rparr>) N' = Some r" by blast
      with n have "Run (Suc k') ms e N = Some r"
        by (simp add: Run_Suc_cont del: Run.simps)
      then show ?thesis by blast
    qed
  qed
qed

text \<open>
  C8. For all Iteratees \<open>a\<close>, \<open>b\<close>, \<open>c\<close> and every enumerator, the run of
  \<open>Seq(Seq(a, b), c)\<close> returns exactly when the run of \<open>Seq(a, b, c)\<close> returns, and
  then with the same error (or none) and the enumerator in the same state, so with
  the same tokens read; the two also agree on \<^verbatim>\<open>Final\<close>.
\<close>

theorem Seq_nested_flat:
  "(\<exists>k. Run k ms e (seqI [seqI [a, b], c]) = Some r)
     = (\<exists>k. Run k ms e (seqI [a, b, c]) = Some r)
   \<and> Final ms (seqI [seqI [a, b], c]) = Final ms (seqI [a, b, c])"
proof -
  have n: "seq_nest (seqI (seqI [a, b] # [c])) (seqI ([a, b] @ [c]))"
    by (rule nest_Seq)
  then have n': "seq_nest (seqI [seqI [a, b], c]) (seqI [a, b, c])" by simp
  from nested_to_flat [OF n'] flat_to_nested [OF n'] seq_nest_Final [OF n', of ms]
  show ?thesis by blast
qed

theorem Seq_nested_flat_witness:
  "Run 5 no_user (NewScanEnumerator (NewScanner [''a'', ''b'', ''c''] None))
       (seqI [seqI [matchI ''a'', matchI ''b''], matchI ''c'']) =
     Some (\<lparr>inS = \<lparr>toks = [], serr = None, bytes = []\<rparr>, scan = True\<rparr>, None)
   \<and> (\<exists>k. Run k no_user (NewScanEnumerator (NewScanner [''a'', ''b'', ''c''] None))
         (seqI [matchI ''a'', matchI ''b'', matchI ''c'']) =
       Some (\<lparr>inS = \<lparr>toks = [], serr = None, bytes = []\<rparr>, scan = True\<rparr>, None))"
proof -
  let ?e = "NewScanEnumerator (NewScanner [''a'', ''b'', ''c''] None)"
  let ?r = "(\<lparr>inS = \<lparr>toks = [], serr = None, bytes = []\<rparr>, scan = True\<rparr>, None)"
  have n: "Run 5 no_user ?e (seqI [seqI [matchI ''a'', matchI ''b''], matchI ''c'']) = Some ?r"
    by (simp add: eval_nat_numeral Step_scan Step_reuse Step_end
        NewScanEnumerator_def NewScanner_def)
  then have "\<exists>k. Run k no_user ?e (seqI [seqI [matchI ''a'', matchI ''b''], matchI ''c''])
      = Some ?r"
    by blast
  with Seq_nested_flat [of no_user ?e "matchI ''a''" "matchI ''b''" "matchI ''c''" ?r]
  have "\<exists>k. Run k no_user ?e (seqI [matchI ''a'', matchI ''b'', matchI ''c'']) = Some ?r"
    by blast
  with n show ?thesis by blast
qed

end
